theory Spec2Isabelle
  imports Main
begin

section \<open>Text as Python reads it\<close>

text \<open>
  The script \<^verbatim>\<open>scripts/Split_bins2fasta.py\<close> opens both of its inputs with
  \<^verbatim>\<open>open(path)\<close>: text mode, universal newlines. A file is modelled by its text, a
  \<^typ>\<open>string\<close> whose characters are code points below 256. Iterating over the file
  object yields the lines of the text after newline translation: a carriage return
  followed by a line feed, and a carriage return alone, both become a line feed, and every
  line keeps its line feed (the last line may have none). Decoding the bytes of a file
  into text is not part of the model.
\<close>

abbreviation LF :: char where
  "LF \<equiv> CHR 0x0A"

abbreviation CR :: char where
  "CR \<equiv> CHR 0x0D"

fun translate_newlines :: "string \<Rightarrow> string" where
  "translate_newlines [] = []"
| "translate_newlines [c] = [if c = CR then LF else c]"
| "translate_newlines (c # d # cs) =
     (if c = CR \<and> d = LF then LF # translate_newlines cs
      else if c = CR then LF # translate_newlines (d # cs)
      else c # translate_newlines (d # cs))"

fun keepends :: "string \<Rightarrow> string list" where
  "keepends [] = []"
| "keepends (c # cs) =
     (if c = LF then [c] # keepends cs
      else (case keepends cs of [] \<Rightarrow> [[c]] | l # ls \<Rightarrow> (c # l) # ls))"

definition file_lines :: "string \<Rightarrow> string list" where
  "file_lines text = keepends (translate_newlines text)"

text \<open>
  \<^verbatim>\<open>str.isspace\<close> on the code points below 256; \<^verbatim>\<open>str.strip()\<close> and
  \<^verbatim>\<open>str.split()\<close> without arguments use it.
\<close>

definition isspace :: "char \<Rightarrow> bool" where
  "isspace c \<longleftrightarrow>
     c \<in> {CHR 0x09, CHR 0x0A, CHR 0x0B, CHR 0x0C, CHR 0x0D, CHR 0x1C, CHR 0x1D,
          CHR 0x1E, CHR 0x1F, CHR 0x20, CHR 0x85, CHR 0xA0}"

definition strip :: "string \<Rightarrow> string" where
  "strip s = rev (dropWhile isspace (rev (dropWhile isspace s)))"

function split_ws :: "string \<Rightarrow> string list" where
  "split_ws s =
     (case dropWhile isspace s of
        [] \<Rightarrow> []
      | c # cs \<Rightarrow> (c # takeWhile (\<lambda>x. \<not> isspace x) cs) # split_ws (dropWhile (\<lambda>x. \<not> isspace x) cs))"
  by pat_completeness auto
termination
proof (relation "measure length")
  show "wf (measure length)" by simp
next
  fix s :: string and c cs
  assume "dropWhile isspace s = c # cs"
  then have "length cs < length s"
    using length_dropWhile_le [of isspace s] by simp
  moreover have "length (dropWhile (\<lambda>x. \<not> isspace x) cs) \<le> length cs"
    by (rule length_dropWhile_le)
  ultimately show "(dropWhile (\<lambda>x. \<not> isspace x) cs, s) \<in> measure length"
    by simp
qed

declare split_ws.simps [simp del]

definition startswith_marker :: "string \<Rightarrow> bool" where
  "startswith_marker line = (case line of [] \<Rightarrow> False | c # _ \<Rightarrow> c = CHR ''>'')"

datatype py_error = IndexError

section \<open>The mapping loader\<close>

text \<open>
  \<^verbatim>\<open>bin2contigs\<close> is a \<^verbatim>\<open>defaultdict(set)\<close>. The dictionary is an association list in
  key insertion order (the order Python iterates it in); each set is the list of its
  elements without repetition. A Python set has no specified iteration order: the list is
  one enumeration of it, and \<open>same_dict\<close> relates two enumerations of the same dictionary.
\<close>

text \<open>
  \<^verbatim>\<open>
  def load_bin_contig_map(tsv_file):
      bin2contigs = defaultdict(set)
      with open(tsv_file) as f:
          header = next(f, None)  # skip header if present
          for line in f:
              if not line.strip():
                  continue
              parts = line.strip().split()
              if len(parts) < 2:
                  continue
              bin_name, contig = parts[0], parts[1]
              bin2contigs[bin_name].add(contig)
      return bin2contigs
  \<close>
\<close>

type_synonym bin2contigs = "(string \<times> string list) list"

fun dict_set_add :: "string \<Rightarrow> string \<Rightarrow> bin2contigs \<Rightarrow> bin2contigs" where
  "dict_set_add bin_name contig [] = [(bin_name, [contig])]"
| "dict_set_add bin_name contig ((k, cs) # m) =
     (if k = bin_name then (k, if contig \<in> set cs then cs else cs @ [contig]) # m
      else (k, cs) # dict_set_add bin_name contig m)"

definition load_line :: "bin2contigs \<Rightarrow> string \<Rightarrow> bin2contigs" where
  "load_line m line =
     (if strip line = [] then m
      else (let parts = split_ws (strip line) in
            if length parts < 2 then m
            else dict_set_add (parts ! 0) (parts ! 1) m))"

definition load_bin_contig_map :: "string \<Rightarrow> bin2contigs" where
  "load_bin_contig_map tsv = foldl load_line [] (drop 1 (file_lines tsv))"

definition pairs_of :: "bin2contigs \<Rightarrow> (string \<times> string) set" where
  "pairs_of m = {(b, c). \<exists>cs. (b, cs) \<in> set m \<and> c \<in> set cs}"

definition wf_dict :: "bin2contigs \<Rightarrow> bool" where
  "wf_dict m \<longleftrightarrow> distinct (map fst m) \<and> list_all (\<lambda>(b, cs). distinct cs) m"

definition same_dict :: "bin2contigs \<Rightarrow> bin2contigs \<Rightarrow> bool" where
  "same_dict m m' \<longleftrightarrow> list_all2 (\<lambda>(b, cs) (b', cs'). b = b' \<and> set cs = set cs') m m'"

section \<open>The sequence splitter\<close>

text \<open>
  The output directory is \<open>None\<close> when it does not exist, and otherwise the map from
  the names of its files to their texts; it holds regular files only. \<^verbatim>\<open>writers\<close> holds the bins whose file is open, in
  the order of opening; a handle opened with mode \<^verbatim>\<open>"w"\<close> truncates its file, and a write
  appends to it. Written text is not translated (the line separator of the platform is a
  line feed). The file of a bin is the entry of the directory under the name of the bin
  followed by \<^verbatim>\<open>.fasta\<close>; a bin name is taken as a plain file name. When the per-line
  parse raises, the exception leaves the function and the model keeps the exception only.
\<close>

text \<open>
  \<^verbatim>\<open>
  def split_fasta_by_bin(assembly_fasta, bin2contigs, outdir):
      outdir = Path(outdir)
      outdir.mkdir(parents=True, exist_ok=True)
      writers = {}
      contig_to_bins = defaultdict(list)
      for bin_name, contigs in bin2contigs.items():
          for c in contigs:
              contig_to_bins[c].append(bin_name)
      current_contig = None
      seq_buffer = []

      def flush():
          if current_contig is None:
              return
          if current_contig in contig_to_bins:
              for bin_name in contig_to_bins[current_contig]:
                  if bin_name not in writers:
                      writers[bin_name] = open(outdir / f"{bin_name}.fasta", "w")
                  writers[bin_name].write(f">{current_contig}\n")
                  writers[bin_name].write("".join(seq_buffer))

      with open(assembly_fasta) as f:
          for line in f:
              if line.startswith(">"):
                  flush()
                  current_contig = line[1:].strip().split()[0]
                  seq_buffer = []
              else:
                  seq_buffer.append(line)
          flush()
      for fh in writers.values():
          fh.close()
  \<close>
\<close>

type_synonym directory = "string \<rightharpoonup> string"

type_synonym contig_to_bins = "string \<rightharpoonup> string list"

record outputs =
  writers :: "string list"
  files :: directory

record splitter =
  current_contig :: "string option"
  seq_buffer :: "string list"
  out :: outputs

definition mkdir :: "directory option \<Rightarrow> directory" where
  "mkdir outdir = (case outdir of None \<Rightarrow> Map.empty | Some d \<Rightarrow> d)"

definition append_bin :: "string \<Rightarrow> contig_to_bins \<Rightarrow> string \<Rightarrow> contig_to_bins" where
  "append_bin bin_name ctb c =
     ctb(c \<mapsto> (case ctb c of None \<Rightarrow> [] | Some bins \<Rightarrow> bins) @ [bin_name])"

definition invert :: "bin2contigs \<Rightarrow> contig_to_bins" where
  "invert m = foldl (\<lambda>ctb (bin_name, contigs). foldl (append_bin bin_name) ctb contigs) Map.empty m"

definition fasta_name :: "string \<Rightarrow> string" where
  "fasta_name bin_name = bin_name @ ''.fasta''"

definition fopen_w :: "string \<Rightarrow> directory \<Rightarrow> directory" where
  "fopen_w name d = d(name \<mapsto> [])"

definition fwrite :: "string \<Rightarrow> string \<Rightarrow> directory \<Rightarrow> directory" where
  "fwrite name s d = d(name \<mapsto> (case d name of None \<Rightarrow> [] | Some old \<Rightarrow> old) @ s)"

definition write_to_bin :: "string \<Rightarrow> string list \<Rightarrow> outputs \<Rightarrow> string \<Rightarrow> outputs" where
  "write_to_bin contig buf o1 bin_name =
     (let o2 = (if bin_name \<in> set (writers o1) then o1
                else o1\<lparr>writers := writers o1 @ [bin_name],
                        files := fopen_w (fasta_name bin_name) (files o1)\<rparr>)
      in o2\<lparr>files := fwrite (fasta_name bin_name) (concat buf)
                         (fwrite (fasta_name bin_name) (''>'' @ contig @ [LF]) (files o2))\<rparr>)"

definition flush :: "contig_to_bins \<Rightarrow> string option \<Rightarrow> string list \<Rightarrow> outputs \<Rightarrow> outputs" where
  "flush ctb cur buf o1 =
     (case cur of
        None \<Rightarrow> o1
      | Some contig \<Rightarrow>
          (case ctb contig of
             None \<Rightarrow> o1
           | Some bins \<Rightarrow> foldl (write_to_bin contig buf) o1 bins))"

definition header_id :: "string \<Rightarrow> py_error + string" where
  "header_id line =
     (case split_ws (strip (tl line)) of [] \<Rightarrow> Inl IndexError | t # _ \<Rightarrow> Inr t)"

definition step :: "contig_to_bins \<Rightarrow> splitter \<Rightarrow> string \<Rightarrow> py_error + splitter" where
  "step ctb st line =
     (if startswith_marker line then
        (let o1 = flush ctb (current_contig st) (seq_buffer st) (out st) in
         case header_id line of
           Inl e \<Rightarrow> Inl e
         | Inr t \<Rightarrow> Inr \<lparr>current_contig = Some t, seq_buffer = [], out = o1\<rparr>)
      else Inr (st\<lparr>seq_buffer := seq_buffer st @ [line]\<rparr>))"

fun run_lines :: "contig_to_bins \<Rightarrow> splitter \<Rightarrow> string list \<Rightarrow> py_error + splitter" where
  "run_lines ctb st [] = Inr st"
| "run_lines ctb st (line # ls) =
     (case step ctb st line of Inl e \<Rightarrow> Inl e | Inr st' \<Rightarrow> run_lines ctb st' ls)"

definition split_fasta_by_bin ::
  "string \<Rightarrow> bin2contigs \<Rightarrow> directory option \<Rightarrow> py_error + outputs" where
  "split_fasta_by_bin assembly_fasta m outdir =
     (let ctb = invert m;
          st0 = \<lparr>current_contig = None, seq_buffer = [],
                 out = \<lparr>writers = [], files = mkdir outdir\<rparr>\<rparr>
      in case run_lines ctb st0 (file_lines assembly_fasta) of
           Inl e \<Rightarrow> Inl e
         | Inr st \<Rightarrow> Inr (flush ctb (current_contig st) (seq_buffer st) (out st)))"

section \<open>The command\<close>

text \<open>
  The run starts after the arguments are parsed. Each input path either does not exist
  (\<open>None\<close>) or names a file with a text that can be read. \<^verbatim>\<open>sys.exit(message)\<close> ends the
  process with status 1 and the message on standard error, and so does an exception
  nobody catches.
\<close>

text \<open>
  \<^verbatim>\<open>
  def main():
      ...
      args = parser.parse_args()
      if not Path(args.assembly).exists():
          sys.exit(f"ERROR: Assembly not found: {args.assembly}")
      if not Path(args.map).exists():
          sys.exit(f"ERROR: Mapping file not found: {args.map}")
      bin2contigs = load_bin_contig_map(args.map)
      if not bin2contigs:
          sys.exit("ERROR: No bin-contig mappings found")
      split_fasta_by_bin(assembly_fasta=args.assembly, bin2contigs=bin2contigs,
                         outdir=args.outdir)
  \<close>
\<close>

record env =
  assembly :: "string option"
  mapping :: "string option"
  outdir :: "directory option"

datatype exit_message = Assembly_not_found | Mapping_file_not_found | No_mappings_found

datatype outcome = SysExit exit_message | Uncaught py_error | Finished outputs

definition main :: "env \<Rightarrow> outcome" where
  "main e =
     (case assembly e of
        None \<Rightarrow> SysExit Assembly_not_found
      | Some assembly_fasta \<Rightarrow>
          (case mapping e of
             None \<Rightarrow> SysExit Mapping_file_not_found
           | Some tsv \<Rightarrow>
               (let m = load_bin_contig_map tsv in
                if m = [] then SysExit No_mappings_found
                else (case split_fasta_by_bin assembly_fasta m (outdir e) of
                        Inl err \<Rightarrow> Uncaught err
                      | Inr o1 \<Rightarrow> Finished o1))))"

definition exit_status :: "outcome \<Rightarrow> nat" where
  "exit_status r = (case r of Finished _ \<Rightarrow> 0 | _ \<Rightarrow> 1)"

section \<open>Reading the files back\<close>

text \<open>
  The vocabulary of the properties. A marker line without a token is the one input the
  per-line parse fails on. \<open>raw_records\<close> cuts a list of lines into records: a marker line
  and the lines up to the next marker line; \<open>records\<close> names each record by its
  identifier, the first token after the marker. \<open>render\<close> is the text the splitter writes
  for a record, and \<open>written\<close> is the text a run has written to the file of a bin.
\<close>

definition bad_marker :: "string \<Rightarrow> bool" where
  "bad_marker line \<longleftrightarrow> startswith_marker line \<and> split_ws (strip (tl line)) = []"

definition token_of :: "string \<Rightarrow> string" where
  "token_of line = (case split_ws (strip (tl line)) of [] \<Rightarrow> [] | t # _ \<Rightarrow> t)"

fun raw_records :: "string list \<Rightarrow> (string \<times> string list) list" where
  "raw_records [] = []"
| "raw_records (l # ls) =
     (if startswith_marker l
      then (l, takeWhile (\<lambda>x. \<not> startswith_marker x) ls) # raw_records ls
      else raw_records ls)"

definition records :: "string list \<Rightarrow> (string \<times> string list) list" where
  "records ls = map (\<lambda>(h, body). (token_of h, body)) (raw_records ls)"

definition emit :: "contig_to_bins \<Rightarrow> outputs \<Rightarrow> string \<times> string list \<Rightarrow> outputs" where
  "emit ctb o1 r = flush ctb (Some (fst r)) (snd r) o1"

definition render :: "string \<times> string list \<Rightarrow> string" where
  "render r = ''>'' @ fst r @ [LF] @ concat (snd r)"

definition written :: "outputs \<Rightarrow> string \<Rightarrow> string" where
  "written o1 bin_name =
     (if bin_name \<in> set (writers o1)
      then (case files o1 (fasta_name bin_name) of None \<Rightarrow> [] | Some s \<Rightarrow> s)
      else [])"

definition owners :: "contig_to_bins \<Rightarrow> string \<Rightarrow> string list" where
  "owners ctb c = (case ctb c of None \<Rightarrow> [] | Some bins \<Rightarrow> bins)"

definition bins_of :: "bin2contigs \<Rightarrow> string \<Rightarrow> string list" where
  "bins_of m c = map fst (filter (\<lambda>(b, cs). c \<in> set cs) m)"

text \<open>
  \<open>owners\<close> reads the inverted index and \<open>bins_of\<close> reads the same list off the table.
  \<open>handles_ok\<close>: every open handle has its file. \<open>row_pairs\<close>: the pairs the rows of a
  table stand for, a row being a line with at least two fields.
\<close>

definition handles_ok :: "outputs \<Rightarrow> bool" where
  "handles_ok o1 \<longleftrightarrow> fasta_name ` set (writers o1) \<subseteq> dom (files o1)"

definition row_pairs :: "string list \<Rightarrow> (string \<times> string) set" where
  "row_pairs ls = {(f ! 0, f ! 1) | l f. l \<in> set ls \<and> f = split_ws l \<and> 2 \<le> length f}"

text \<open>
  The shape of the lines text mode yields: a line is not empty, holds no carriage return
  and has a line feed at its end only (\<open>line_ok\<close>); every line but the last ends in a
  line feed (\<open>terminated\<close>). \<open>bodies_ok\<close> says the same of the bodies of a list of
  records: only the last line of the last body may lack its line feed. A token is what
  \<open>split_ws\<close> returns: not empty, without whitespace. \<open>rec_lines\<close> are the lines of the
  text of a record.
\<close>

definition terminated :: "string \<Rightarrow> bool" where
  "terminated l \<longleftrightarrow> l \<noteq> [] \<and> last l = LF"

definition line_ok :: "string \<Rightarrow> bool" where
  "line_ok l \<longleftrightarrow> l \<noteq> [] \<and> LF \<notin> set (butlast l) \<and> CR \<notin> set l"

definition lines_ok :: "string list \<Rightarrow> bool" where
  "lines_ok ls \<longleftrightarrow> list_all line_ok ls \<and> list_all terminated (butlast ls)"

definition is_token :: "string \<Rightarrow> bool" where
  "is_token t \<longleftrightarrow> t \<noteq> [] \<and> list_all (\<lambda>x. \<not> isspace x) t"

definition rec_lines :: "string \<times> string list \<Rightarrow> string list" where
  "rec_lines r = (CHR ''>'' # fst r @ [LF]) # snd r"

definition bodies_ok :: "string list list \<Rightarrow> bool" where
  "bodies_ok bs \<longleftrightarrow>
     list_all (list_all terminated) (butlast bs) \<and>
     (case rev bs of [] \<Rightarrow> True | b # _ \<Rightarrow> list_all terminated (butlast b))"

text \<open>
  \<open>owned\<close>: the records a bin owns, in their order; \<open>with_id\<close>: the records with one
  identifier. \<open>same_written\<close>: two outputs with the same handles and the same text in the
  file of each.
\<close>

definition owned :: "bin2contigs \<Rightarrow> string \<Rightarrow> (string \<times> string list) list \<Rightarrow> (string \<times> string list) list" where
  "owned m b recs = filter (\<lambda>r. (b, fst r) \<in> pairs_of m) recs"

definition with_id :: "string \<Rightarrow> (string \<times> string list) list \<Rightarrow> (string \<times> string list) list" where
  "with_id c recs = filter (\<lambda>r. fst r = c) recs"

definition same_written :: "outputs \<Rightarrow> outputs \<Rightarrow> bool" where
  "same_written o1 o2 \<longleftrightarrow>
     writers o1 = writers o2 \<and>
     list_all (\<lambda>b. files o1 (fasta_name b) = files o2 (fasta_name b)) (writers o1)"

section \<open>Bin names and the world around the command\<close>

text \<open>
  \<^verbatim>\<open>open(outdir / f"{bin_name}.fasta", "w")\<close> is modelled for a bin name that is a plain
  file name: at most 249 characters, each an ASCII character other than the slash and the
  null character. Then the path names the entry \<^verbatim>\<open>bin_name.fasta\<close> of the output directory
  itself, two bins have two files, and the name is within the limits of a file name. For
  any other bin name the path may lie in another directory, name the file of another bin,
  or make \<^verbatim>\<open>open\<close> raise, and \<open>write_to_bin\<close> does not describe what the script does
  then. The handles stay open until the end of the run, so the script also needs one
  more open file for each bin: \<open>plain_bins\<close> bounds the table at 250 bins, fewer than
  the files a process may have open under the limits in common use (256 or more). A
  property that depends on the files of the bins assumes \<open>plain_bins\<close> of the table.
  The model also takes the directory to be writable and the file system to tell upper
  case from lower case.
\<close>

definition plain_name :: "string \<Rightarrow> bool" where
  "plain_name b \<longleftrightarrow>
     length b \<le> 249 \<and>
     list_all (\<lambda>c. c \<noteq> CHR ''/'' \<and> c \<noteq> CHR 0x00 \<and> (of_char c :: nat) < 128) b"

definition plain_bins :: "bin2contigs \<Rightarrow> bool" where
  "plain_bins m \<longleftrightarrow> length m \<le> 250 \<and> list_all (\<lambda>(b, cs). plain_name b) m"

text \<open>
  The command once more, with what \<open>main\<close> leaves out. A path that exists need not be
  readable as text: it may be a directory, closed to the user, or hold bytes that do not
  decode, and then opening or reading it raises an exception nobody catches.
  \<^verbatim>\<open>Path.exists()\<close> is true of such a path. The table is read to its end inside
  \<^verbatim>\<open>load_bin_contig_map\<close>, before the splitter is called: a table is \<open>Unreadable\<close> when
  opening it or reading any of it raises. The assembly is opened inside the splitter,
  after the output directory has been made: an assembly is \<open>Unreadable\<close> when opening it
  or reading its first line raises (an assembly that fails to decode further on is not
  modelled). A run that ends before the splitter's loop is recorded with the output
  directory as the process leaves it; a run that reaches the loop is the splitter's
  result. The inner test for a missing assembly is never reached and is there to cover
  the type.
\<close>

datatype io_error = IsADirectoryError | PermissionError | UnicodeDecodeError

datatype source = Missing | Unreadable io_error | Readable string

record world =
  assembly_src :: source
  mapping_src :: source
  out_dir :: "directory option"

datatype run =
  Exits exit_message "directory option"
| Raises io_error "directory option"
| Splits "py_error + outputs"

definition main_io :: "world \<Rightarrow> run" where
  "main_io w =
     (if assembly_src w = Missing then Exits Assembly_not_found (out_dir w)
      else (case mapping_src w of
              Missing \<Rightarrow> Exits Mapping_file_not_found (out_dir w)
            | Unreadable err \<Rightarrow> Raises err (out_dir w)
            | Readable tsv \<Rightarrow>
                (let m = load_bin_contig_map tsv in
                 if m = [] then Exits No_mappings_found (out_dir w)
                 else (case assembly_src w of
                         Missing \<Rightarrow> Exits Assembly_not_found (out_dir w)
                       | Unreadable err \<Rightarrow> Raises err (Some (mkdir (out_dir w)))
                       | Readable assembly_fasta \<Rightarrow>
                           Splits (split_fasta_by_bin assembly_fasta m (out_dir w))))))"

definition run_status :: "run \<Rightarrow> nat" where
  "run_status r = (case r of Splits (Inr _) \<Rightarrow> 0 | _ \<Rightarrow> 1)"

section \<open>The per-line loop as a fold over the records\<close>

lemma py_error_only: "(e::py_error) = IndexError"
  by (cases e) simp

lemma header_id_bad: "bad_marker l \<Longrightarrow> header_id l = Inl IndexError"
  by (simp add: bad_marker_def header_id_def)

lemma header_id_good:
  "startswith_marker l \<Longrightarrow> \<not> bad_marker l \<Longrightarrow> header_id l = Inr (token_of l)"
  by (simp add: bad_marker_def header_id_def token_of_def split: list.splits)

lemma run_lines_bad:
  "list_ex bad_marker ls \<Longrightarrow> run_lines ctb st ls = Inl IndexError"
proof (induction ls arbitrary: st)
  case Nil
  then show ?case by simp
next
  case (Cons l ls)
  show ?case
  proof (cases "bad_marker l")
    case True
    then show ?thesis
      by (simp add: step_def header_id_bad bad_marker_def)
  next
    case False
    with Cons.prems have "list_ex bad_marker ls" by simp
    then have "\<And>st'. run_lines ctb st' ls = Inl IndexError"
      by (rule Cons.IH)
    then show ?thesis
      by (cases "step ctb st l") (simp_all add: py_error_only)
  qed
qed

lemma run_lines_good:
  "\<not> list_ex bad_marker ls \<Longrightarrow>
   \<exists>st'. run_lines ctb \<lparr>current_contig = cur, seq_buffer = buf, out = o1\<rparr> ls = Inr st' \<and>
     flush ctb (current_contig st') (seq_buffer st') (out st') =
       foldl (emit ctb)
         (flush ctb cur (buf @ takeWhile (\<lambda>x. \<not> startswith_marker x) ls) o1) (records ls)"
proof (induction ls arbitrary: cur buf o1)
  case Nil
  then show ?case by (simp add: records_def)
next
  case (Cons l ls)
  from Cons.prems have good: "\<not> bad_marker l" and rest: "\<not> list_ex bad_marker ls"
    by simp_all
  show ?case
  proof (cases "startswith_marker l")
    case True
    then have st: "step ctb \<lparr>current_contig = cur, seq_buffer = buf, out = o1\<rparr> l =
        Inr \<lparr>current_contig = Some (token_of l), seq_buffer = [], out = flush ctb cur buf o1\<rparr>"
      using good by (simp add: step_def header_id_good)
    from Cons.IH [OF rest, of "Some (token_of l)" "[]" "flush ctb cur buf o1"]
    show ?thesis
      using True st by (simp add: records_def emit_def)
  next
    case False
    then have st: "step ctb \<lparr>current_contig = cur, seq_buffer = buf, out = o1\<rparr> l =
        Inr \<lparr>current_contig = cur, seq_buffer = buf @ [l], out = o1\<rparr>"
      by (simp add: step_def)
    from Cons.IH [OF rest, of cur "buf @ [l]" o1]
    show ?thesis
      using False st by (simp add: records_def)
  qed
qed

lemma flush_None: "flush ctb None buf o1 = o1"
  by (simp add: flush_def)

lemma split_fasta_by_bin_fold:
  "split_fasta_by_bin asm m od =
     (if list_ex bad_marker (file_lines asm) then Inl IndexError
      else Inr (foldl (emit (invert m)) \<lparr>writers = [], files = mkdir od\<rparr>
                  (records (file_lines asm))))"
proof (cases "list_ex bad_marker (file_lines asm)")
  case True
  then show ?thesis
    by (simp add: split_fasta_by_bin_def run_lines_bad)
next
  case False
  from run_lines_good [OF False, of "invert m" None "[]" "\<lparr>writers = [], files = mkdir od\<rparr>"]
  show ?thesis
    using False by (auto simp: split_fasta_by_bin_def flush_None)
qed

section \<open>Whitespace splitting and the loader\<close>

lemma split_ws_Nil [simp]: "split_ws [] = []"
  by (simp add: split_ws.simps)

lemma split_ws_dropWhile: "split_ws (dropWhile isspace s) = split_ws s"
  by (subst (1 2) split_ws.simps) simp

lemma split_ws_no_token: "dropWhile isspace s = [] \<Longrightarrow> split_ws s = []"
  by (subst split_ws.simps) (simp only: list.case)

lemma split_ws_all_space: "\<forall>x \<in> set s. isspace x \<Longrightarrow> split_ws s = []"
  by (rule split_ws_no_token) simp

lemma split_ws_append_space:
  "\<forall>x \<in> set ws. isspace x \<Longrightarrow> split_ws (s @ ws) = split_ws s"
proof (induction s rule: split_ws.induct)
  case (1 s)
  show ?case
  proof (cases "dropWhile isspace s")
    case Nil
    then have "\<forall>x \<in> set s. isspace x"
      by (simp add: dropWhile_eq_Nil_conv)
    with "1.prems" have "\<forall>x \<in> set (s @ ws). isspace x" by auto
    then have "split_ws (s @ ws) = []" by (rule split_ws_all_space)
    moreover have "split_ws s = []" using Nil by (rule split_ws_no_token)
    ultimately show ?thesis by simp
  next
    case (Cons c cs)
    then have ex: "\<exists>x \<in> set s. \<not> isspace x"
      by (metis dropWhile_eq_Nil_conv list.distinct(1))
    then obtain x where "x \<in> set s" "\<not> isspace x" by blast
    then have "dropWhile isspace (s @ ws) = dropWhile isspace s @ ws"
      by (rule dropWhile_append1)
    then have dw: "dropWhile isspace (s @ ws) = c # (cs @ ws)"
      using Cons by simp
    show ?thesis
    proof (cases "\<forall>x \<in> set cs. \<not> isspace x")
      case True
      then have t1: "takeWhile (\<lambda>x. \<not> isspace x) cs = cs"
        and d1: "dropWhile (\<lambda>x. \<not> isspace x) cs = []"
        by simp_all
      have t2: "takeWhile (\<lambda>x. \<not> isspace x) (cs @ ws) = cs"
        using True "1.prems" by (cases ws) (simp_all add: takeWhile_append2)
      have d2: "dropWhile (\<lambda>x. \<not> isspace x) (cs @ ws) = ws"
        using True "1.prems" by (cases ws) (simp_all add: dropWhile_append2)
      have "split_ws (s @ ws) = (c # cs) # split_ws ws"
        by (subst split_ws.simps) (simp add: dw t2 d2)
      moreover have "split_ws s = [c # cs]"
        by (subst split_ws.simps) (simp add: Cons t1 d1)
      moreover have "split_ws ws = []"
        using "1.prems" by (rule split_ws_all_space)
      ultimately show ?thesis by simp
    next
      case False
      then have t2: "takeWhile (\<lambda>x. \<not> isspace x) (cs @ ws) = takeWhile (\<lambda>x. \<not> isspace x) cs"
        by (auto simp: takeWhile_append1)
      from False have d2: "dropWhile (\<lambda>x. \<not> isspace x) (cs @ ws) = dropWhile (\<lambda>x. \<not> isspace x) cs @ ws"
        by (auto simp: dropWhile_append1)
      have "split_ws (s @ ws) =
          (c # takeWhile (\<lambda>x. \<not> isspace x) cs) # split_ws (dropWhile (\<lambda>x. \<not> isspace x) cs @ ws)"
        by (subst split_ws.simps) (simp add: dw t2 d2)
      also have "split_ws (dropWhile (\<lambda>x. \<not> isspace x) cs @ ws) = split_ws (dropWhile (\<lambda>x. \<not> isspace x) cs)"
        using "1.IH" [OF Cons "1.prems"] .
      also have "(c # takeWhile (\<lambda>x. \<not> isspace x) cs) # split_ws (dropWhile (\<lambda>x. \<not> isspace x) cs) = split_ws s"
        by (subst (2) split_ws.simps) (simp add: Cons)
      finally show ?thesis .
    qed
  qed
qed

lemma strip_decomp:
  "dropWhile isspace s = strip s @ rev (takeWhile isspace (rev (dropWhile isspace s)))"
proof -
  have "rev (dropWhile isspace s) =
      takeWhile isspace (rev (dropWhile isspace s)) @ dropWhile isspace (rev (dropWhile isspace s))"
    by simp
  then have "rev (rev (dropWhile isspace s)) =
      rev (takeWhile isspace (rev (dropWhile isspace s)) @ dropWhile isspace (rev (dropWhile isspace s)))"
    by simp
  then show ?thesis
    by (simp add: strip_def del: takeWhile_dropWhile_id)
qed

lemma split_ws_strip: "split_ws (strip s) = split_ws s"
proof -
  have sp: "\<forall>x \<in> set (rev (takeWhile isspace (rev (dropWhile isspace s)))). isspace x"
    by (auto dest: set_takeWhileD)
  have "split_ws s = split_ws (dropWhile isspace s)"
    by (simp add: split_ws_dropWhile)
  also have "\<dots> = split_ws (strip s @ rev (takeWhile isspace (rev (dropWhile isspace s))))"
    using strip_decomp [of s] by simp
  also have "\<dots> = split_ws (strip s)"
    using sp by (rule split_ws_append_space)
  finally show ?thesis by simp
qed

lemma load_line_eq:
  "load_line m line =
     (if length (split_ws line) < 2 then m
      else dict_set_add (split_ws line ! 0) (split_ws line ! 1) m)"
  by (cases "strip line = []")
     (use split_ws_strip [of line] in \<open>auto simp: load_line_def Let_def\<close>)

lemma pairs_of_dict_set_add: "pairs_of (dict_set_add b c m) = insert (b, c) (pairs_of m)"
  by (induction b c m rule: dict_set_add.induct) (auto simp: pairs_of_def)

lemma keys_dict_set_add: "fst ` set (dict_set_add b c m) = insert b (fst ` set m)"
  by (induction b c m rule: dict_set_add.induct) auto

lemma wf_dict_set_add: "wf_dict m \<Longrightarrow> wf_dict (dict_set_add b c m)"
proof (induction b c m rule: dict_set_add.induct)
  case (1 b c)
  then show ?case by (simp add: wf_dict_def)
next
  case (2 b c k cs m)
  have tl: "wf_dict m" using "2.prems" by (simp add: wf_dict_def)
  show ?case
  proof (cases "k = b")
    case True
    then show ?thesis using "2.prems" by (simp add: wf_dict_def)
  next
    case False
    have "wf_dict (dict_set_add b c m)" using "2.IH" [OF False tl] .
    moreover have "k \<notin> fst ` set (dict_set_add b c m)"
      using False "2.prems" by (simp add: keys_dict_set_add wf_dict_def)
    ultimately show ?thesis using False "2.prems" by (simp add: wf_dict_def)
  qed
qed

lemma wf_load_line: "wf_dict m \<Longrightarrow> wf_dict (load_line m line)"
  by (simp add: load_line_eq wf_dict_set_add)

lemma wf_foldl_load_line: "wf_dict m \<Longrightarrow> wf_dict (foldl load_line m ls)"
  by (induction ls arbitrary: m) (simp_all add: wf_load_line)

lemma wf_load_bin_contig_map: "wf_dict (load_bin_contig_map tsv)"
  unfolding load_bin_contig_map_def
  by (rule wf_foldl_load_line) (simp add: wf_dict_def)

lemma pairs_of_load_line:
  "pairs_of (load_line m line) = pairs_of m \<union> row_pairs [line]"
  by (auto simp: load_line_eq pairs_of_dict_set_add row_pairs_def)

lemma row_pairs_Cons: "row_pairs (l # ls) = row_pairs [l] \<union> row_pairs ls"
  by (auto simp: row_pairs_def)

lemma pairs_of_foldl_load_line:
  "pairs_of (foldl load_line m ls) = pairs_of m \<union> row_pairs ls"
proof (induction ls arbitrary: m)
  case Nil
  then show ?case by (simp add: row_pairs_def)
next
  case (Cons l ls)
  show ?case
    using row_pairs_Cons [of l ls] by (auto simp: Cons.IH pairs_of_load_line)
qed

lemma pairs_of_load_bin_contig_map:
  "pairs_of (load_bin_contig_map tsv) = row_pairs (drop 1 (file_lines tsv))"
proof -
  have "pairs_of [] = {}" by (simp add: pairs_of_def)
  then show ?thesis
    by (simp add: load_bin_contig_map_def pairs_of_foldl_load_line)
qed

section \<open>The inverted index\<close>

lemma owners_append_bin:
  "owners (append_bin b ctb c') c = owners ctb c @ (if c = c' then [b] else [])"
  by (simp add: owners_def append_bin_def)

lemma owners_foldl_append_bin:
  "distinct cs \<Longrightarrow>
   owners (foldl (append_bin b) ctb cs) c = owners ctb c @ (if c \<in> set cs then [b] else [])"
  by (induction cs arbitrary: ctb) (auto simp: owners_append_bin)

lemma owners_foldl_invert:
  "list_all (\<lambda>(b, cs). distinct cs) m \<Longrightarrow>
   owners (foldl (\<lambda>ctb (bin_name, contigs). foldl (append_bin bin_name) ctb contigs) ctb m) c =
     owners ctb c @ bins_of m c"
  by (induction m arbitrary: ctb) (auto simp: owners_foldl_append_bin bins_of_def)

lemma owners_invert: "wf_dict m \<Longrightarrow> owners (invert m) c = bins_of m c"
  using owners_foldl_invert [of m Map.empty c]
  by (simp add: invert_def wf_dict_def owners_def)

lemma distinct_bins_of: "wf_dict m \<Longrightarrow> distinct (bins_of m c)"
  by (simp add: wf_dict_def bins_of_def distinct_map_filter)

lemma set_bins_of: "b \<in> set (bins_of m c) \<longleftrightarrow> (b, c) \<in> pairs_of m"
  by (force simp: bins_of_def pairs_of_def)

lemma same_dict_bins_of: "same_dict m m' \<Longrightarrow> bins_of m c = bins_of m' c"
  unfolding same_dict_def
  by (induction m m' rule: list_all2_induct) (auto simp: bins_of_def)

lemma flush_owners:
  "flush ctb (Some c) buf o1 = foldl (write_to_bin c buf) o1 (owners ctb c)"
  by (simp add: flush_def owners_def split: option.splits)

lemma emit_bins_of: "wf_dict m \<Longrightarrow> emit (invert m) o1 r = foldl (write_to_bin (fst r) (snd r)) o1 (bins_of m (fst r))"
  by (simp add: emit_def flush_owners owners_invert)

lemma same_dict_emit:
  "wf_dict m \<Longrightarrow> wf_dict m' \<Longrightarrow> same_dict m m' \<Longrightarrow> emit (invert m) = emit (invert m')"
  by (intro ext) (simp add: emit_bins_of same_dict_bins_of)

section \<open>What a flush writes\<close>

lemma fasta_name_inj [simp]: "fasta_name a = fasta_name b \<longleftrightarrow> a = b"
  by (simp add: fasta_name_def)

lemma written_write_to_bin:
  "written (write_to_bin c buf o1 b') b =
     written o1 b @ (if b = b' then render (c, buf) else [])"
  by (auto simp: written_def write_to_bin_def Let_def fwrite_def fopen_w_def render_def
           split: option.splits)

lemma written_foldl_write:
  "written (foldl (write_to_bin c buf) o1 bins) b =
     written o1 b @ concat (map (\<lambda>b'. if b = b' then render (c, buf) else []) bins)"
  by (induction bins arbitrary: o1) (simp_all add: written_write_to_bin)

lemma concat_map_if_distinct:
  "distinct xs \<Longrightarrow> concat (map (\<lambda>y. if x = y then r else []) xs) = (if x \<in> set xs then r else [])"
  by (induction xs) auto

lemma written_emit:
  "distinct (owners ctb (fst r)) \<Longrightarrow>
   written (emit ctb o1 r) b =
     written o1 b @ (if b \<in> set (owners ctb (fst r)) then render r else [])"
  by (cases r)
     (auto simp: emit_def flush_def owners_def written_foldl_write concat_map_if_distinct
           split: option.splits)

lemma written_foldl_emit:
  "\<forall>c. distinct (owners ctb c) \<Longrightarrow>
   written (foldl (emit ctb) o1 recs) b =
     written o1 b @ concat (map render (filter (\<lambda>r. b \<in> set (owners ctb (fst r))) recs))"
  by (induction recs arbitrary: o1) (simp_all add: written_emit)

lemma writers_write_to_bin:
  "set (writers (write_to_bin c buf o1 b')) = insert b' (set (writers o1))"
  by (auto simp: write_to_bin_def Let_def)

lemma writers_foldl_write:
  "set (writers (foldl (write_to_bin c buf) o1 bins)) = set (writers o1) \<union> set bins"
  by (induction bins arbitrary: o1) (auto simp: writers_write_to_bin)

lemma writers_emit:
  "set (writers (emit ctb o1 r)) = set (writers o1) \<union> set (owners ctb (fst r))"
  by (auto simp: emit_def flush_def owners_def writers_foldl_write split: option.splits)

lemma writers_foldl_emit:
  "set (writers (foldl (emit ctb) o1 recs)) =
     set (writers o1) \<union> (\<Union>r \<in> set recs. set (owners ctb (fst r)))"
  by (induction recs arbitrary: o1) (auto simp: writers_emit)

lemma handles_ok_write_to_bin: "handles_ok o1 \<Longrightarrow> handles_ok (write_to_bin c buf o1 b)"
  by (auto simp: handles_ok_def write_to_bin_def Let_def fwrite_def fopen_w_def)

lemma handles_ok_foldl_write:
  "handles_ok o1 \<Longrightarrow> handles_ok (foldl (write_to_bin c buf) o1 bins)"
  by (induction bins arbitrary: o1) (simp_all add: handles_ok_write_to_bin)

lemma handles_ok_emit: "handles_ok o1 \<Longrightarrow> handles_ok (emit ctb o1 r)"
  by (auto simp: emit_def flush_def handles_ok_foldl_write split: option.splits)

lemma handles_ok_foldl_emit: "handles_ok o1 \<Longrightarrow> handles_ok (foldl (emit ctb) o1 recs)"
  by (induction recs arbitrary: o1) (simp_all add: handles_ok_emit)

lemma files_written:
  "handles_ok o1 \<Longrightarrow> b \<in> set (writers o1) \<Longrightarrow> files o1 (fasta_name b) = Some (written o1 b)"
  by (auto simp: handles_ok_def written_def split: option.splits)

text \<open>Frame: a file that is not the file of a bin written to keeps its text.\<close>

lemma frame_write_to_bin:
  "name \<noteq> fasta_name b \<Longrightarrow> files (write_to_bin c buf o1 b) name = files o1 name"
  by (simp add: write_to_bin_def Let_def fwrite_def fopen_w_def)

lemma frame_foldl_write:
  "name \<notin> fasta_name ` set bins \<Longrightarrow>
   files (foldl (write_to_bin c buf) o1 bins) name = files o1 name"
  by (induction bins arbitrary: o1) (auto simp: frame_write_to_bin)

lemma frame_emit:
  "name \<notin> fasta_name ` set (owners ctb (fst r)) \<Longrightarrow> files (emit ctb o1 r) name = files o1 name"
  by (auto simp: emit_def flush_def owners_def frame_foldl_write split: option.splits)

lemma frame_foldl_emit:
  "name \<notin> fasta_name ` (\<Union>r \<in> set recs. set (owners ctb (fst r))) \<Longrightarrow>
   files (foldl (emit ctb) o1 recs) name = files o1 name"
proof (induction recs arbitrary: o1)
  case Nil
  then show ?case by simp
next
  case (Cons r recs)
  from Cons.prems have a: "name \<notin> fasta_name ` set (owners ctb (fst r))"
    and b: "name \<notin> fasta_name ` (\<Union>r \<in> set recs. set (owners ctb (fst r)))"
    by auto
  show ?case
    by (simp add: Cons.IH [OF b] frame_emit [OF a])
qed

section \<open>Lines of a text and their concatenation\<close>

lemma translate_newlines_no_CR: "CR \<notin> set (translate_newlines s)"
  by (induction s rule: translate_newlines.induct) auto

lemma translate_newlines_id: "CR \<notin> set s \<Longrightarrow> translate_newlines s = s"
  by (induction s rule: translate_newlines.induct) auto

lemma keepends_concat: "concat (keepends s) = s"
  by (induction s) (auto split: list.splits)

lemma keepends_nonempty: "[] \<notin> set (keepends s)"
  by (induction s) (auto split: list.splits)

lemma keepends_LF_last: "l \<in> set (keepends s) \<Longrightarrow> LF \<notin> set (butlast l)"
proof (induction s arbitrary: l)
  case Nil
  then show ?case by simp
next
  case (Cons c cs)
  show ?case
  proof (cases "c = LF")
    case True
    with Cons show ?thesis by auto
  next
    case False
    show ?thesis
    proof (cases "keepends cs")
      case Nil
      with False Cons.prems show ?thesis by simp
    next
      case (Cons k ks)
      have "k \<noteq> []" using keepends_nonempty [of cs] Cons by auto
      with False Cons Cons.prems Cons.IH show ?thesis by auto
    qed
  qed
qed

lemma keepends_terminated: "list_all terminated (butlast (keepends s))"
proof (induction s)
  case Nil
  then show ?case by simp
next
  case (Cons c cs)
  show ?case
  proof (cases "keepends cs")
    case Nil
    then show ?thesis by (simp add: terminated_def)
  next
    case (Cons k ks)
    have "k \<noteq> []" using keepends_nonempty [of cs] Cons by auto
    with Cons Cons.IH show ?thesis by (auto simp: terminated_def)
  qed
qed

lemma lines_ok_file_lines: "lines_ok (file_lines s)"
proof -
  let ?ls = "keepends (translate_newlines s)"
  have "CR \<notin> set (concat ?ls)"
    by (simp only: keepends_concat translate_newlines_no_CR not_False_eq_True)
  then have cr: "\<forall>l \<in> set ?ls. CR \<notin> set l"
    by auto
  have "\<forall>l \<in> set ?ls. line_ok l"
  proof
    fix l assume l: "l \<in> set ?ls"
    then have "l \<noteq> []" using keepends_nonempty [of "translate_newlines s"] by auto
    moreover have "LF \<notin> set (butlast l)" using l by (rule keepends_LF_last)
    moreover have "CR \<notin> set l" using cr l by blast
    ultimately show "line_ok l" by (simp add: line_ok_def)
  qed
  then have "list_all line_ok ?ls" by (simp add: list_all_iff)
  then show ?thesis
    by (simp add: lines_ok_def file_lines_def keepends_terminated)
qed

lemma keepends_line: "LF \<notin> set l \<Longrightarrow> keepends (l @ LF # rest) = (l @ [LF]) # keepends rest"
  by (induction l) auto

lemma keepends_eq_Nil: "keepends s = [] \<longleftrightarrow> s = []"
  by (cases s) (auto split: list.splits)

lemma keepends_last_line: "LF \<notin> set l \<Longrightarrow> l \<noteq> [] \<Longrightarrow> keepends l = [l]"
proof (induction l)
  case Nil
  then show ?case by simp
next
  case (Cons a l)
  show ?case
  proof (cases "l = []")
    case True
    with Cons.prems show ?thesis by simp
  next
    case False
    with Cons have "keepends l = [l]" by simp
    with Cons.prems show ?thesis by auto
  qed
qed

lemma keepends_line_ok:
  assumes "line_ok l"
  shows "keepends l = [l]"
proof -
  from assms have ne: "l \<noteq> []" and nb: "LF \<notin> set (butlast l)"
    by (simp_all add: line_ok_def)
  from ne have l: "butlast l @ [last l] = l" by (rule append_butlast_last_id)
  show ?thesis
  proof (cases "last l = LF")
    case True
    have "keepends (butlast l @ LF # []) = (butlast l @ [LF]) # keepends []"
      using nb by (rule keepends_line)
    then show ?thesis using l True by simp
  next
    case False
    have "set l = set (butlast l) \<union> {last l}"
      by (subst l [symmetric]) simp
    then have "LF \<notin> set l" using nb False by auto
    then show ?thesis using ne by (rule keepends_last_line)
  qed
qed

lemma keepends_concat_lines:
  "list_all line_ok ls \<Longrightarrow> list_all terminated (butlast ls) \<Longrightarrow> keepends (concat ls) = ls"
proof (induction ls)
  case Nil
  then show ?case by simp
next
  case (Cons l ls)
  show ?case
  proof (cases ls)
    case Nil
    with Cons.prems show ?thesis by (simp add: keepends_line_ok)
  next
    case (Cons k ks)
    with Cons.prems have t: "terminated l" and ok: "line_ok l"
      and rest: "list_all line_ok ls" "list_all terminated (butlast ls)"
      by simp_all
    from t have l: "l = butlast l @ [LF]"
      using append_butlast_last_id [of l] by (simp add: terminated_def)
    have "keepends (concat (l # ls)) = keepends (butlast l @ LF # concat ls)"
      by (subst l) simp
    also have "\<dots> = (butlast l @ [LF]) # keepends (concat ls)"
      using ok by (simp add: keepends_line line_ok_def)
    also have "\<dots> = l # ls"
      using l Cons.IH [OF rest] by simp
    finally show ?thesis .
  qed
qed

lemma file_lines_concat: "lines_ok ls \<Longrightarrow> file_lines (concat ls) = ls"
proof -
  assume ok: "lines_ok ls"
  then have "CR \<notin> set (concat ls)"
    by (auto simp: lines_ok_def list_all_iff line_ok_def)
  then have "translate_newlines (concat ls) = concat ls"
    by (rule translate_newlines_id)
  then show ?thesis
    using ok by (simp add: file_lines_def lines_ok_def keepends_concat_lines)
qed

section \<open>Marker lines and leading lines\<close>

lemma split_ws_eq_Nil: "split_ws s = [] \<longleftrightarrow> (\<forall>x \<in> set s. isspace x)"
proof
  assume "split_ws s = []"
  then have "dropWhile isspace s = []"
    by (subst (asm) split_ws.simps) (simp split: list.splits)
  then show "\<forall>x \<in> set s. isspace x" by simp
next
  assume "\<forall>x \<in> set s. isspace x"
  then show "split_ws s = []" by (rule split_ws_all_space)
qed

lemma bad_marker_iff:
  "bad_marker l \<longleftrightarrow> startswith_marker l \<and> (\<forall>x \<in> set (tl l). isspace x)"
  by (simp add: bad_marker_def split_ws_strip split_ws_eq_Nil)

lemma raw_records_dropWhile:
  "raw_records (dropWhile (\<lambda>x. \<not> startswith_marker x) ls) = raw_records ls"
  by (induction ls) simp_all

lemma records_dropWhile:
  "records (dropWhile (\<lambda>x. \<not> startswith_marker x) ls) = records ls"
  by (simp add: records_def raw_records_dropWhile)

lemma bad_marker_dropWhile:
  "list_ex bad_marker (dropWhile (\<lambda>x. \<not> startswith_marker x) ls) = list_ex bad_marker ls"
  by (induction ls) (auto simp: bad_marker_def)

lemma run_lines_no_marker:
  "list_all (\<lambda>x. \<not> startswith_marker x) pre \<Longrightarrow>
   run_lines ctb st pre = Inr (st\<lparr>seq_buffer := seq_buffer st @ pre\<rparr>)"
  by (induction pre arbitrary: st) (simp_all add: step_def)

lemma run_lines_append:
  "run_lines ctb st (xs @ ys) =
     (case run_lines ctb st xs of Inl e \<Rightarrow> Inl e | Inr st' \<Rightarrow> run_lines ctb st' ys)"
  by (induction xs arbitrary: st) (simp_all split: sum.splits)

lemma lines_ok_dropWhile: "lines_ok ls \<Longrightarrow> lines_ok (dropWhile P ls)"
proof (induction ls)
  case Nil
  then show ?case by simp
next
  case (Cons l ls)
  from Cons.prems have "lines_ok ls"
    by (cases ls) (simp_all add: lines_ok_def)
  with Cons show ?case by simp
qed

lemma file_lines_dropWhile:
  "file_lines (concat (dropWhile P (file_lines s))) = dropWhile P (file_lines s)"
  by (intro file_lines_concat lines_ok_dropWhile lines_ok_file_lines)

section \<open>The header line and the empty table\<close>

lemma translate_newlines_Cons: "c \<noteq> CR \<Longrightarrow> translate_newlines (c # s) = c # translate_newlines s"
  by (cases s) simp_all

lemma translate_newlines_line:
  "CR \<notin> set h \<Longrightarrow> translate_newlines (h @ LF # rest) = h @ LF # translate_newlines rest"
  by (induction h) (auto simp: translate_newlines_Cons)

lemma file_lines_first:
  "CR \<notin> set h \<Longrightarrow> LF \<notin> set h \<Longrightarrow> file_lines (h @ LF # rest) = (h @ [LF]) # file_lines rest"
  by (simp add: file_lines_def translate_newlines_line keepends_line)

lemma dict_set_add_not_Nil: "dict_set_add b c m \<noteq> []"
  by (cases m) (auto split: if_splits)

lemma row_pairs_single: "row_pairs [l] = {} \<longleftrightarrow> length (split_ws l) < 2"
  by (auto simp: row_pairs_def)

lemma load_line_eq_Nil: "load_line m l = [] \<longleftrightarrow> m = [] \<and> row_pairs [l] = {}"
  by (simp add: load_line_eq dict_set_add_not_Nil row_pairs_single)

lemma foldl_load_line_eq_Nil: "foldl load_line m ls = [] \<longleftrightarrow> m = [] \<and> row_pairs ls = {}"
proof (induction ls arbitrary: m)
  case Nil
  then show ?case by (simp add: row_pairs_def)
next
  case (Cons l ls)
  show ?case
    using row_pairs_Cons [of l ls] by (auto simp: Cons.IH load_line_eq_Nil)
qed

lemma load_eq_Nil: "load_bin_contig_map tsv = [] \<longleftrightarrow> row_pairs (drop 1 (file_lines tsv)) = {}"
  by (simp add: load_bin_contig_map_def foldl_load_line_eq_Nil)

lemma records_no_marker: "\<not> list_ex startswith_marker ls \<Longrightarrow> records ls = []"
  by (induction ls) (simp_all add: records_def)

lemma no_marker_not_bad: "\<not> list_ex startswith_marker ls \<Longrightarrow> \<not> list_ex bad_marker ls"
  by (auto simp: list_ex_iff bad_marker_def)

section \<open>Tokens and the records of rendered text\<close>

lemma split_ws_tokens: "t \<in> set (split_ws s) \<Longrightarrow> is_token t"
proof (induction s rule: split_ws.induct)
  case (1 s)
  show ?case
  proof (cases "dropWhile isspace s")
    case Nil
    then have "split_ws s = []" by (rule split_ws_no_token)
    with "1.prems" show ?thesis by simp
  next
    case (Cons c cs)
    have c: "\<not> isspace c"
      using hd_dropWhile [of isspace s] Cons by simp
    have eq: "split_ws s =
        (c # takeWhile (\<lambda>x. \<not> isspace x) cs) # split_ws (dropWhile (\<lambda>x. \<not> isspace x) cs)"
      by (subst split_ws.simps) (simp add: Cons)
    from "1.prems" eq consider "t = c # takeWhile (\<lambda>x. \<not> isspace x) cs"
      | "t \<in> set (split_ws (dropWhile (\<lambda>x. \<not> isspace x) cs))"
      by auto
    then show ?thesis
    proof cases
      case 1
      then show ?thesis
        using c by (auto simp: is_token_def list_all_iff dest: set_takeWhileD)
    next
      case 2
      then show ?thesis using "1.IH" [OF Cons] by simp
    qed
  qed
qed

lemma split_ws_token: "is_token t \<Longrightarrow> split_ws t = [t]"
proof -
  assume t: "is_token t"
  then obtain c cs where tc: "t = c # cs" by (cases t) (simp_all add: is_token_def)
  with t have c: "\<not> isspace c" and cs: "\<forall>x \<in> set cs. \<not> isspace x"
    by (simp_all add: is_token_def list_all_iff)
  from c have d: "dropWhile isspace (c # cs) = c # cs" by simp
  from cs have tw: "takeWhile (\<lambda>x. \<not> isspace x) cs = cs"
    and dw: "dropWhile (\<lambda>x. \<not> isspace x) cs = []"
    by simp_all
  show ?thesis
    unfolding tc by (subst split_ws.simps) (simp only: d tw dw list.case split_ws_Nil)
qed

lemma split_ws_token_line: "is_token t \<Longrightarrow> isspace LF \<Longrightarrow> split_ws (t @ [LF]) = [t]"
  using split_ws_append_space [of "[LF]" t] by (simp add: split_ws_token)

lemma isspace_LF: "isspace LF"
  by (simp add: isspace_def)

lemma token_of_header: "is_token t \<Longrightarrow> token_of (CHR ''>'' # t @ [LF]) = t"
  by (simp add: token_of_def split_ws_strip split_ws_token_line isspace_LF)

lemma token_of_good: "\<not> bad_marker l \<Longrightarrow> startswith_marker l \<Longrightarrow> is_token (token_of l)"
proof -
  assume "\<not> bad_marker l" "startswith_marker l"
  then obtain t ts where "split_ws (strip (tl l)) = t # ts"
    by (cases "split_ws (strip (tl l))") (simp_all add: bad_marker_def)
  then have "token_of l = t" "t \<in> set (split_ws (strip (tl l)))"
    by (simp_all add: token_of_def)
  then show ?thesis by (simp add: split_ws_tokens)
qed

lemma raw_records_markers: "r \<in> set (raw_records ls) \<Longrightarrow> fst r \<in> set ls \<and> startswith_marker (fst r)"
  by (induction ls) (auto split: if_splits)

lemma raw_records_bodies:
  "r \<in> set (raw_records ls) \<Longrightarrow> set (snd r) \<subseteq> set ls \<and> list_all (\<lambda>x. \<not> startswith_marker x) (snd r)"
proof (induction ls)
  case Nil
  then show ?case by simp
next
  case (Cons l ls)
  then show ?case
    by (auto simp: list_all_iff split: if_splits dest: set_takeWhileD)
qed

lemma records_ids:
  "\<not> list_ex bad_marker ls \<Longrightarrow> r \<in> set (records ls) \<Longrightarrow>
   is_token (fst r) \<and> set (snd r) \<subseteq> set ls \<and> list_all (\<lambda>x. \<not> startswith_marker x) (snd r)"
proof -
  assume good: "\<not> list_ex bad_marker ls" and r: "r \<in> set (records ls)"
  from r obtain h where h: "(h, snd r) \<in> set (raw_records ls)" and f: "fst r = token_of h"
    by (auto simp: records_def)
  from raw_records_markers [OF h] have "h \<in> set ls" "startswith_marker h" by simp_all
  with good have "is_token (token_of h)"
    by (intro token_of_good) (auto simp: list_ex_iff)
  with f raw_records_bodies [OF h] show ?thesis by simp
qed

lemma rec_lines_concat: "concat (rec_lines r) = render r"
  by (simp add: rec_lines_def render_def)

lemma render_concat: "concat (map render recs) = concat (concat (map rec_lines recs))"
  by (induction recs) (simp_all add: rec_lines_concat)

lemma raw_records_skip:
  "list_all (\<lambda>x. \<not> startswith_marker x) body \<Longrightarrow> raw_records (body @ ls) = raw_records ls"
  by (induction body) simp_all

lemma takeWhile_body:
  "list_all (\<lambda>x. \<not> startswith_marker x) body \<Longrightarrow> ls = [] \<or> startswith_marker (hd ls) \<Longrightarrow>
   takeWhile (\<lambda>x. \<not> startswith_marker x) (body @ ls) = body"
proof -
  assume body: "list_all (\<lambda>x. \<not> startswith_marker x) body"
    and ls: "ls = [] \<or> startswith_marker (hd ls)"
  from ls have "takeWhile (\<lambda>x. \<not> startswith_marker x) ls = []"
    by (cases ls) auto
  with body show ?thesis
    by (simp add: takeWhile_append2 list_all_iff)
qed

lemma rec_lines_head:
  "concat (map rec_lines recs) = [] \<or> startswith_marker (hd (concat (map rec_lines recs)))"
  by (cases recs) (simp_all add: rec_lines_def startswith_marker_def)

lemma raw_records_rec_lines:
  "list_all (\<lambda>r. list_all (\<lambda>x. \<not> startswith_marker x) (snd r)) recs \<Longrightarrow>
   raw_records (concat (map rec_lines recs)) = map (\<lambda>r. (CHR ''>'' # fst r @ [LF], snd r)) recs"
proof (induction recs)
  case Nil
  then show ?case by simp
next
  case (Cons r recs)
  let ?rest = "concat (map rec_lines recs)"
  from Cons.prems have body: "list_all (\<lambda>x. \<not> startswith_marker x) (snd r)"
    and rest: "list_all (\<lambda>r. list_all (\<lambda>x. \<not> startswith_marker x) (snd r)) recs"
    by simp_all
  have "raw_records (concat (map rec_lines (r # recs))) =
      raw_records ((CHR ''>'' # fst r @ [LF]) # (snd r @ ?rest))"
    by (simp add: rec_lines_def)
  also have "\<dots> = (CHR ''>'' # fst r @ [LF], takeWhile (\<lambda>x. \<not> startswith_marker x) (snd r @ ?rest))
      # raw_records (snd r @ ?rest)"
    by (simp add: startswith_marker_def)
  also have "takeWhile (\<lambda>x. \<not> startswith_marker x) (snd r @ ?rest) = snd r"
    using body rec_lines_head [of recs] by (rule takeWhile_body)
  also have "raw_records (snd r @ ?rest) = raw_records ?rest"
    using body by (rule raw_records_skip)
  also have "raw_records ?rest = map (\<lambda>r. (CHR ''>'' # fst r @ [LF], snd r)) recs"
    using rest by (rule Cons.IH)
  finally show ?case by simp
qed

lemma records_rec_lines:
  assumes "list_all (\<lambda>r. is_token (fst r) \<and> list_all (\<lambda>x. \<not> startswith_marker x) (snd r)) recs"
  shows "records (concat (map rec_lines recs)) = recs"
proof -
  from assms have a: "list_all (\<lambda>r. list_all (\<lambda>x. \<not> startswith_marker x) (snd r)) recs"
    and t: "\<forall>r \<in> set recs. is_token (fst r)"
    by (simp_all add: list_all_iff)
  have "records (concat (map rec_lines recs)) =
      map (\<lambda>r. (token_of (CHR ''>'' # fst r @ [LF]), snd r)) recs"
    by (simp add: records_def raw_records_rec_lines [OF a] comp_def)
  also have "\<dots> = map (\<lambda>r. r) recs"
    using t by (intro map_cong) (simp_all add: token_of_header)
  finally show ?thesis by simp
qed

section \<open>Line ends of the bodies\<close>

lemma bodies_ok_snoc:
  "bodies_ok (bs @ [b]) \<longleftrightarrow> list_all (list_all terminated) bs \<and> list_all terminated (butlast b)"
  by (simp add: bodies_ok_def)

lemma butlast_subset: "list_all P xs \<Longrightarrow> list_all P (butlast xs)"
  by (auto simp: list_all_iff dest: in_set_butlastD)

lemma bodies_ok_all: "list_all (list_all terminated) bs \<Longrightarrow> bodies_ok bs"
proof (cases bs rule: rev_cases)
  case Nil
  then show ?thesis by (simp add: bodies_ok_def)
next
  case (snoc ys y)
  assume "list_all (list_all terminated) bs"
  with snoc show ?thesis
    by (simp add: bodies_ok_snoc butlast_subset)
qed

lemma bodies_ok_filter:
  "bodies_ok (map snd recs) \<Longrightarrow> bodies_ok (map snd (filter p recs))"
proof (cases recs rule: rev_cases)
  case Nil
  then show ?thesis by (simp add: bodies_ok_def)
next
  case (snoc rs r)
  assume "bodies_ok (map snd recs)"
  with snoc have full: "list_all (list_all terminated) (map snd rs)"
    and almost: "list_all terminated (butlast (snd r))"
    by (simp_all add: bodies_ok_snoc)
  from full have f: "list_all (list_all terminated) (map snd (filter p rs))"
    by (auto simp: list_all_iff)
  show ?thesis
  proof (cases "p r")
    case True
    with snoc f almost show ?thesis by (simp add: bodies_ok_snoc)
  next
    case False
    with snoc f show ?thesis by (simp add: bodies_ok_all)
  qed
qed

lemma terminated_prefix:
  "list_all terminated (butlast (xs @ ys)) \<Longrightarrow> ys \<noteq> [] \<Longrightarrow> list_all terminated xs"
  by (simp add: butlast_append)

lemma terminated_takeWhile:
  assumes "list_all terminated (butlast ls)"
  shows "list_all terminated (butlast (takeWhile p ls))"
    and "\<exists>x \<in> set ls. \<not> p x \<Longrightarrow> list_all terminated (takeWhile p ls)"
proof -
  have ls: "takeWhile p ls @ dropWhile p ls = ls" by simp
  show ex: "list_all terminated (takeWhile p ls)" if "\<exists>x \<in> set ls. \<not> p x"
  proof -
    from that have ne: "dropWhile p ls \<noteq> []" by (simp add: dropWhile_eq_Nil_conv)
    have "list_all terminated (butlast (takeWhile p ls @ dropWhile p ls))"
      using assms by (simp only: ls)
    then show ?thesis using ne by (rule terminated_prefix)
  qed
  show "list_all terminated (butlast (takeWhile p ls))"
  proof (cases "\<exists>x \<in> set ls. \<not> p x")
    case True
    then have "list_all terminated (takeWhile p ls)" by (rule ex)
    then show ?thesis by (rule butlast_subset)
  next
    case False
    then have "takeWhile p ls = ls" by simp
    with assms show ?thesis by (simp only:)
  qed
qed

lemma raw_records_eq_Nil: "raw_records ls = [] \<longleftrightarrow> \<not> list_ex startswith_marker ls"
  by (induction ls) simp_all

lemma terminated_tail: "list_all terminated (butlast (l # ls)) \<Longrightarrow> list_all terminated (butlast ls)"
  by (cases ls) simp_all

lemma bodies_ok_Cons:
  "bs \<noteq> [] \<Longrightarrow> bodies_ok (b # bs) \<longleftrightarrow> list_all terminated b \<and> bodies_ok bs"
  by (cases bs rule: rev_cases) (simp_all add: bodies_ok_def)

lemma bodies_ok_raw_records:
  "list_all terminated (butlast ls) \<Longrightarrow> bodies_ok (map snd (raw_records ls))"
proof (induction ls)
  case Nil
  then show ?case by (simp add: bodies_ok_def)
next
  case (Cons l ls)
  from Cons.prems have tl: "list_all terminated (butlast ls)" by (rule terminated_tail)
  then have IH: "bodies_ok (map snd (raw_records ls))" by (rule Cons.IH)
  show ?case
  proof (cases "startswith_marker l")
    case False
    with IH show ?thesis by simp
  next
    case True
    show ?thesis
    proof (cases "raw_records ls = []")
      case True
      have "list_all terminated (butlast (takeWhile (\<lambda>x. \<not> startswith_marker x) ls))"
        using tl by (rule terminated_takeWhile(1))
      with True \<open>startswith_marker l\<close> show ?thesis by (simp add: bodies_ok_def)
    next
      case False
      then have "\<exists>x \<in> set ls. \<not> \<not> startswith_marker x"
        by (simp add: raw_records_eq_Nil list_ex_iff)
      then have "list_all terminated (takeWhile (\<lambda>x. \<not> startswith_marker x) ls)"
        by (rule terminated_takeWhile(2) [OF tl])
      with False IH True show ?thesis by (simp add: bodies_ok_Cons)
    qed
  qed
qed

lemma bodies_ok_records: "list_all terminated (butlast ls) \<Longrightarrow> bodies_ok (map snd (records ls))"
proof -
  have "map snd (records ls) = map snd (raw_records ls)"
    by (simp add: records_def comp_def case_prod_beta)
  then show "list_all terminated (butlast ls) \<Longrightarrow> bodies_ok (map snd (records ls))"
    by (simp add: bodies_ok_raw_records)
qed

lemma terminated_header: "terminated (CHR ''>'' # t @ [LF])"
  by (simp add: terminated_def)

lemma terminated_rec_lines:
  "list_all (list_all terminated) (map snd recs) \<Longrightarrow> list_all terminated (concat (map rec_lines recs))"
  by (induction recs) (simp_all add: rec_lines_def terminated_header)

lemma terminated_rendered:
  "bodies_ok (map snd recs) \<Longrightarrow> list_all terminated (butlast (concat (map rec_lines recs)))"
proof (cases recs rule: rev_cases)
  case Nil
  then show ?thesis by simp
next
  case (snoc rs r)
  assume "bodies_ok (map snd recs)"
  with snoc have full: "list_all (list_all terminated) (map snd rs)"
    and almost: "list_all terminated (butlast (snd r))"
    by (simp_all add: bodies_ok_snoc)
  have "butlast (concat (map rec_lines recs)) =
      concat (map rec_lines rs) @ butlast (rec_lines r)"
    using snoc by (simp add: butlast_append rec_lines_def)
  moreover have "list_all terminated (butlast (rec_lines r))"
    using almost by (simp add: rec_lines_def terminated_header)
  ultimately show ?thesis
    using terminated_rec_lines [OF full] by simp
qed

lemma line_ok_header: "is_token t \<Longrightarrow> line_ok (CHR ''>'' # t @ [LF])"
proof -
  assume "is_token t"
  then have "\<forall>x \<in> set t. \<not> isspace x" by (simp add: is_token_def list_all_iff)
  moreover have "isspace LF" "isspace CR" by (simp_all add: isspace_def)
  ultimately have "LF \<notin> set t" "CR \<notin> set t" by blast+
  then show ?thesis by (simp add: line_ok_def butlast_append)
qed

lemma line_ok_rec_lines:
  "list_all (\<lambda>r. is_token (fst r) \<and> list_all line_ok (snd r)) recs \<Longrightarrow>
   list_all line_ok (concat (map rec_lines recs))"
  by (induction recs) (simp_all add: rec_lines_def line_ok_header)

lemma file_lines_rendered:
  assumes "list_all (\<lambda>r. is_token (fst r) \<and> list_all line_ok (snd r)) recs"
    and "bodies_ok (map snd recs)"
  shows "file_lines (concat (map render recs)) = concat (map rec_lines recs)"
proof -
  have "lines_ok (concat (map rec_lines recs))"
    using assms by (simp add: lines_ok_def line_ok_rec_lines terminated_rendered)
  then show ?thesis
    by (simp add: render_concat file_lines_concat)
qed

section \<open>The splitter's result\<close>

lemma distinct_owners_invert: "wf_dict m \<Longrightarrow> distinct (owners (invert m) c)"
  by (simp add: owners_invert distinct_bins_of)

lemma written_init: "written \<lparr>writers = [], files = d\<rparr> b = []"
  by (simp add: written_def)

lemma handles_ok_init: "handles_ok \<lparr>writers = [], files = d\<rparr>"
  by (simp add: handles_ok_def)

lemma split_result:
  "split_fasta_by_bin asm m od = Inr o1 \<longleftrightarrow>
     \<not> list_ex bad_marker (file_lines asm) \<and>
     o1 = foldl (emit (invert m)) \<lparr>writers = [], files = mkdir od\<rparr> (records (file_lines asm))"
  by (auto simp: split_fasta_by_bin_fold)

lemma split_written:
  assumes "wf_dict m" and "split_fasta_by_bin asm m od = Inr o1"
  shows "written o1 b = concat (map render (owned m b (records (file_lines asm))))"
proof -
  from assms(2) have o1: "o1 = foldl (emit (invert m)) \<lparr>writers = [], files = mkdir od\<rparr>
      (records (file_lines asm))"
    by (simp add: split_result)
  have d: "\<forall>c. distinct (owners (invert m) c)"
    using assms(1) by (simp add: distinct_owners_invert)
  show ?thesis
    unfolding o1 written_foldl_emit [OF d]
    using assms(1) by (simp add: written_init owned_def owners_invert set_bins_of)
qed

lemma split_writers:
  assumes "wf_dict m" and "split_fasta_by_bin asm m od = Inr o1"
  shows "b \<in> set (writers o1) \<longleftrightarrow> owned m b (records (file_lines asm)) \<noteq> []"
proof -
  from assms(2) have o1: "o1 = foldl (emit (invert m)) \<lparr>writers = [], files = mkdir od\<rparr>
      (records (file_lines asm))"
    by (simp add: split_result)
  show ?thesis
    unfolding o1 writers_foldl_emit
    using assms(1) by (auto simp: owned_def owners_invert set_bins_of filter_empty_conv)
qed

lemma split_files:
  assumes "split_fasta_by_bin asm m od = Inr o1" and "b \<in> set (writers o1)"
  shows "files o1 (fasta_name b) = Some (written o1 b)"
proof -
  from assms(1) have o1: "o1 = foldl (emit (invert m)) \<lparr>writers = [], files = mkdir od\<rparr>
      (records (file_lines asm))"
    by (simp add: split_result)
  have "handles_ok o1"
    unfolding o1 by (intro handles_ok_foldl_emit handles_ok_init)
  then show ?thesis using assms(2) by (rule files_written)
qed

lemma split_frame:
  assumes "split_fasta_by_bin asm m od = Inr o1" and "name \<notin> fasta_name ` set (writers o1)"
  shows "files o1 name = mkdir od name"
proof -
  from assms(1) have o1: "o1 = foldl (emit (invert m)) \<lparr>writers = [], files = mkdir od\<rparr>
      (records (file_lines asm))"
    by (simp add: split_result)
  from assms(2) have "name \<notin> fasta_name `
      (\<Union>r \<in> set (records (file_lines asm)). set (owners (invert m) (fst r)))"
    unfolding o1 writers_foldl_emit by simp
  then have "files (foldl (emit (invert m)) \<lparr>writers = [], files = mkdir od\<rparr>
      (records (file_lines asm))) name = files \<lparr>writers = [], files = mkdir od\<rparr> name"
    by (rule frame_foldl_emit)
  then show ?thesis
    unfolding o1 by simp
qed

lemma owned_records_ok:
  assumes "\<not> list_ex bad_marker (file_lines asm)"
  shows "list_all (\<lambda>r. is_token (fst r) \<and> list_all line_ok (snd r))
           (owned m b (records (file_lines asm)))"
    and "list_all (\<lambda>r. is_token (fst r) \<and> list_all (\<lambda>x. \<not> startswith_marker x) (snd r))
           (owned m b (records (file_lines asm)))"
    and "bodies_ok (map snd (owned m b (records (file_lines asm))))"
proof -
  have ok: "lines_ok (file_lines asm)" by (rule lines_ok_file_lines)
  have r: "is_token (fst r) \<and> list_all line_ok (snd r) \<and>
      list_all (\<lambda>x. \<not> startswith_marker x) (snd r)"
    if "r \<in> set (records (file_lines asm))" for r
  proof -
    from records_ids [OF assms that] have t: "is_token (fst r)"
      and s: "set (snd r) \<subseteq> set (file_lines asm)"
      and n: "list_all (\<lambda>x. \<not> startswith_marker x) (snd r)"
      by simp_all
    from ok s have "list_all line_ok (snd r)"
      by (auto simp: lines_ok_def list_all_iff)
    with t n show ?thesis by simp
  qed
  then show "list_all (\<lambda>r. is_token (fst r) \<and> list_all line_ok (snd r))
           (owned m b (records (file_lines asm)))"
    by (auto simp: owned_def list_all_iff)
  from r show "list_all (\<lambda>r. is_token (fst r) \<and> list_all (\<lambda>x. \<not> startswith_marker x) (snd r))
           (owned m b (records (file_lines asm)))"
    by (auto simp: owned_def list_all_iff)
  from ok have "bodies_ok (map snd (records (file_lines asm)))"
    by (intro bodies_ok_records) (simp add: lines_ok_def)
  then show "bodies_ok (map snd (owned m b (records (file_lines asm))))"
    unfolding owned_def by (rule bodies_ok_filter)
qed

lemma split_reread:
  assumes "wf_dict m" and "split_fasta_by_bin asm m od = Inr o1"
  shows "file_lines (written o1 b) = concat (map rec_lines (owned m b (records (file_lines asm))))"
    and "raw_records (file_lines (written o1 b)) =
           map (\<lambda>r. (CHR ''>'' # fst r @ [LF], snd r)) (owned m b (records (file_lines asm)))"
    and "records (file_lines (written o1 b)) = owned m b (records (file_lines asm))"
proof -
  let ?recs = "owned m b (records (file_lines asm))"
  from assms(2) have good: "\<not> list_ex bad_marker (file_lines asm)"
    by (simp add: split_result)
  have w: "written o1 b = concat (map render ?recs)"
    using assms by (rule split_written)
  show fl: "file_lines (written o1 b) = concat (map rec_lines ?recs)"
    unfolding w
    using owned_records_ok(1) [OF good] owned_records_ok(3) [OF good]
    by (rule file_lines_rendered)
  have nm: "list_all (\<lambda>r. list_all (\<lambda>x. \<not> startswith_marker x) (snd r)) ?recs"
    using owned_records_ok(2) [OF good, of m b] by (simp add: list_all_iff)
  show "raw_records (file_lines (written o1 b)) =
      map (\<lambda>r. (CHR ''>'' # fst r @ [LF], snd r)) ?recs"
    unfolding fl using nm by (rule raw_records_rec_lines)
  show "records (file_lines (written o1 b)) = ?recs"
    unfolding fl using owned_records_ok(2) [OF good] by (rule records_rec_lines)
qed

section \<open>Records with one identifier\<close>

lemma with_id_owned: "(b, c) \<in> pairs_of m \<Longrightarrow> with_id c (owned m b recs) = with_id c recs"
  by (auto simp: with_id_def owned_def intro: filter_cong)

lemma split_returns:
  "\<not> list_ex bad_marker (file_lines asm) \<Longrightarrow> \<exists>o1. split_fasta_by_bin asm m od = Inr o1"
  by (simp add: split_fasta_by_bin_fold)

lemma headers_with_id:
  assumes "list_all (\<lambda>r. is_token (fst r)) recs"
  shows "filter (\<lambda>r. token_of (fst r) = c) (map (\<lambda>r. (CHR ''>'' # fst r @ [LF], snd r)) recs) =
     map (\<lambda>r. (CHR ''>'' # c @ [LF], snd r)) (with_id c recs)"
  using assms
  by (induction recs) (auto simp: with_id_def token_of_header)

section \<open>Rerunning and the order of a set\<close>

lemma same_written_write_to_bin:
  "same_written o1 o2 \<Longrightarrow> same_written (write_to_bin c buf o1 b) (write_to_bin c buf o2 b)"
  by (auto simp: same_written_def write_to_bin_def Let_def fwrite_def fopen_w_def list_all_iff)

lemma same_written_foldl_write:
  "same_written o1 o2 \<Longrightarrow>
   same_written (foldl (write_to_bin c buf) o1 bins) (foldl (write_to_bin c buf) o2 bins)"
  by (induction bins arbitrary: o1 o2) (simp_all add: same_written_write_to_bin)

lemma same_written_emit: "same_written o1 o2 \<Longrightarrow> same_written (emit ctb o1 r) (emit ctb o2 r)"
  by (simp add: emit_def flush_def same_written_foldl_write split: option.splits)

lemma same_written_foldl_emit:
  "same_written o1 o2 \<Longrightarrow> same_written (foldl (emit ctb) o1 recs) (foldl (emit ctb) o2 recs)"
  by (induction recs arbitrary: o1 o2) (simp_all add: same_written_emit)

lemma same_written_init: "same_written \<lparr>writers = [], files = d\<rparr> \<lparr>writers = [], files = d'\<rparr>"
  by (simp add: same_written_def)

lemma split_same_written:
  assumes "split_fasta_by_bin asm m od = Inr o1" and "split_fasta_by_bin asm m od' = Inr o2"
  shows "same_written o1 o2"
  using assms by (simp add: split_result same_written_foldl_emit same_written_init)

lemma split_error_any_dir:
  "split_fasta_by_bin asm m od = Inl e \<Longrightarrow> split_fasta_by_bin asm m od' = Inl e"
  by (simp add: split_fasta_by_bin_fold split: if_splits)

lemma split_rerun:
  assumes "split_fasta_by_bin asm m od = Inr o1"
  shows "split_fasta_by_bin asm m (Some (files o1)) = Inr o1"
proof -
  from assms have "\<not> list_ex bad_marker (file_lines asm)" by (simp add: split_result)
  then obtain o2 where s2: "split_fasta_by_bin asm m (Some (files o1)) = Inr o2"
    using split_returns by blast
  from assms s2 have sw: "same_written o1 o2" by (rule split_same_written)
  then have w: "writers o2 = writers o1" by (simp add: same_written_def)
  have "files o2 name = files o1 name" for name
  proof (cases "name \<in> fasta_name ` set (writers o2)")
    case True
    then show ?thesis using sw by (auto simp: same_written_def list_all_iff)
  next
    case False
    with s2 have "files o2 name = mkdir (Some (files o1)) name" by (rule split_frame)
    then show ?thesis by (simp add: mkdir_def)
  qed
  then have "files o2 = files o1" by (rule ext)
  with w have "o2 = o1" by simp
  with s2 show ?thesis by simp
qed

lemma split_same_dict:
  assumes "wf_dict m" and "wf_dict m'" and "same_dict m m'"
  shows "split_fasta_by_bin asm m od = split_fasta_by_bin asm m' od"
  using same_dict_emit [OF assms] by (simp add: split_fasta_by_bin_fold)

lemma records_has_marker_ids:
  "l \<in> set ls \<Longrightarrow> startswith_marker l \<Longrightarrow> token_of l \<in> fst ` set (records ls)"
  by (induction ls) (auto simp: records_def)

lemma bad_marker_empty_id: "list_ex bad_marker ls \<Longrightarrow> [] \<in> fst ` set (records ls)"
proof -
  assume "list_ex bad_marker ls"
  then obtain l where l: "l \<in> set ls" "bad_marker l" by (auto simp: list_ex_iff)
  then have "token_of l = []" by (simp add: bad_marker_def token_of_def)
  moreover have "token_of l \<in> fst ` set (records ls)"
    using l by (intro records_has_marker_ids) (simp_all add: bad_marker_def)
  ultimately show ?thesis by simp
qed

section \<open>The text of a file\<close>

lemma no_CR_rendered:
  assumes "list_all (\<lambda>r. is_token (fst r) \<and> list_all line_ok (snd r)) recs"
  shows "CR \<notin> set (concat (map render recs))"
proof -
  have "list_all line_ok (concat (map rec_lines recs))"
    using assms by (rule line_ok_rec_lines)
  then have "\<forall>l \<in> set (concat (map rec_lines recs)). CR \<notin> set l"
    by (simp add: list_all_iff line_ok_def)
  then show ?thesis
    unfolding render_concat by auto
qed

lemma filter_single:
  "filter P xs = [r] \<Longrightarrow>
   \<exists>us vs. xs = us @ [r] @ vs \<and> (\<forall>u \<in> set us. \<not> P u) \<and> (\<forall>v \<in> set vs. \<not> P v)"
proof -
  assume "filter P xs = [r]"
  then obtain us vs where xs: "xs = us @ r # vs" and us: "\<forall>u \<in> set us. \<not> P u"
    and vs: "[] = filter P vs"
    unfolding filter_eq_Cons_iff by blast
  from vs have "filter P vs = []" by (rule sym)
  then have "\<forall>v \<in> set vs. \<not> P v" by (simp only: filter_empty_conv)
  with xs us show ?thesis by auto
qed

section \<open>Plain names\<close>

lemma plain_name_path:
  "plain_name b \<Longrightarrow>
   CHR ''/'' \<notin> set (fasta_name b) \<and> CHR 0x00 \<notin> set (fasta_name b) \<and>
   length (fasta_name b) \<le> 255"
  by (auto simp: plain_name_def fasta_name_def list_all_iff)

section \<open>The claims\<close>

text \<open>
  Claim C1, as stated, fails twice. A sequence file may hold two records with one
  identifier, and then the file of an owning bin holds two records with it, not one. And
  the body is not written with the line ends of the sequence file: text mode hands the
  splitter every line with a line feed at its end, so a body line that ended in carriage
  return and line feed is written with a line feed alone.
\<close>

theorem one_record_verbatim_counterexample:
  "(''A'', ''c1'') \<in> pairs_of (load_bin_contig_map (''bin contig'' @ [LF] @ ''A c1'' @ [LF])) \<and>
   map fst (records (file_lines (''>c1'' @ [LF] @ ''AA'' @ [LF] @ ''>c1'' @ [LF] @ ''CC'' @ [LF]))) =
     [''c1'', ''c1''] \<and>
   main \<lparr>assembly = Some (''>c1'' @ [LF] @ ''AA'' @ [LF] @ ''>c1'' @ [LF] @ ''CC'' @ [LF]),
         mapping = Some (''bin contig'' @ [LF] @ ''A c1'' @ [LF]), outdir = None\<rparr> =
     Finished \<lparr>writers = [''A''],
       files = [''A.fasta'' \<mapsto> ''>c1'' @ [LF] @ ''AA'' @ [LF] @ ''>c1'' @ [LF] @ ''CC'' @ [LF]]\<rparr> \<and>
   main \<lparr>assembly = Some (''>c1'' @ [CR, LF] @ ''AC'' @ [CR, LF]),
         mapping = Some (''bin contig'' @ [LF] @ ''A c1'' @ [LF]), outdir = None\<rparr> =
     Finished \<lparr>writers = [''A''],
       files = [''A.fasta'' \<mapsto> ''>c1'' @ [LF] @ ''AC'' @ [LF]]\<rparr>"
proof -
  have ld: "load_bin_contig_map (''bin contig'' @ [LF] @ ''A c1'' @ [LF]) = [(''A'', [''c1''])]"
    by (simp add: load_bin_contig_map_def file_lines_def load_line_def strip_def isspace_def
        split_ws.simps)
  have p: "(''A'', ''c1'') \<in> pairs_of [(''A'', [''c1''])]"
    by (simp add: pairs_of_def)
  have r: "map fst (records (file_lines (''>c1'' @ [LF] @ ''AA'' @ [LF] @ ''>c1'' @ [LF] @ ''CC'' @ [LF]))) =
     [''c1'', ''c1'']"
    by (simp add: records_def file_lines_def startswith_marker_def token_of_def strip_def
        isspace_def split_ws.simps)
  have s1: "split_fasta_by_bin (''>c1'' @ [LF] @ ''AA'' @ [LF] @ ''>c1'' @ [LF] @ ''CC'' @ [LF])
      [(''A'', [''c1''])] None =
     Inr \<lparr>writers = [''A''],
       files = [''A.fasta'' \<mapsto> ''>c1'' @ [LF] @ ''AA'' @ [LF] @ ''>c1'' @ [LF] @ ''CC'' @ [LF]]\<rparr>"
    by (simp add: split_fasta_by_bin_def file_lines_def invert_def append_bin_def step_def
        startswith_marker_def header_id_def strip_def isspace_def split_ws.simps flush_def
        write_to_bin_def fwrite_def fopen_w_def fasta_name_def mkdir_def Let_def)
  have s2: "split_fasta_by_bin (''>c1'' @ [CR, LF] @ ''AC'' @ [CR, LF]) [(''A'', [''c1''])] None =
     Inr \<lparr>writers = [''A''], files = [''A.fasta'' \<mapsto> ''>c1'' @ [LF] @ ''AC'' @ [LF]]\<rparr>"
    by (simp add: split_fasta_by_bin_def file_lines_def invert_def append_bin_def step_def
        startswith_marker_def header_id_def strip_def isspace_def split_ws.simps flush_def
        write_to_bin_def fwrite_def fopen_w_def fasta_name_def mkdir_def Let_def)
  show ?thesis
    using p r s1 s2 by (simp add: main_def Let_def ld [simplified])
qed

text \<open>
  Claim C1, amended. Take a table of at most 250 bins whose names are plain file names,
  a pair of a bin and an identifier of the table, and a sequence file whose marker lines
  all have a token. The splitter returns. The text written to the file of the bin is the
  concatenation, in the order of the sequence file, of the texts of the records the bin
  owns, and the records with the identifier among them are exactly the records of the
  sequence file with the identifier: one for each, so exactly one, between the texts of
  records with other identifiers, when the sequence file has exactly one. The text of
  such a record is the marker, the identifier and a line feed, whatever followed the
  identifier in the sequence file, and then the body lines of the record as text mode
  reads them. Those are the lines of the sequence file with every line end translated to
  a line feed, so the written text holds no carriage return. When the sequence file has
  a record with the identifier, the bin has its file and the file holds exactly the text
  written. Read back, the file shows the same records under the same marker lines.
\<close>

theorem pair_records_written:
  assumes "(b, c) \<in> pairs_of (load_bin_contig_map tsv)"
    and "plain_bins (load_bin_contig_map tsv)"
    and "\<not> list_ex bad_marker (file_lines asm)"
  shows "\<exists>o1. split_fasta_by_bin asm (load_bin_contig_map tsv) od = Inr o1 \<and>
     written o1 b =
       concat (map render (owned (load_bin_contig_map tsv) b (records (file_lines asm)))) \<and>
     with_id c (owned (load_bin_contig_map tsv) b (records (file_lines asm))) =
       with_id c (records (file_lines asm)) \<and>
     (\<forall>r \<in> set (with_id c (records (file_lines asm))).
        render r = CHR ''>'' # c @ LF # concat (snd r) \<and>
        set (snd r) \<subseteq> set (file_lines asm)) \<and>
     (\<forall>r. with_id c (records (file_lines asm)) = [r] \<longrightarrow>
        (\<exists>us vs. written o1 b =
             concat (map render us) @ CHR ''>'' # c @ LF # concat (snd r) @ concat (map render vs) \<and>
           c \<notin> fst ` set us \<and> c \<notin> fst ` set vs)) \<and>
     concat (file_lines asm) = translate_newlines asm \<and>
     CR \<notin> set (translate_newlines asm) \<and>
     CR \<notin> set (written o1 b) \<and>
     (with_id c (records (file_lines asm)) \<noteq> [] \<longrightarrow>
        files o1 (fasta_name b) = Some (written o1 b)) \<and>
     with_id c (records (file_lines (written o1 b))) = with_id c (records (file_lines asm)) \<and>
     filter (\<lambda>r. token_of (fst r) = c) (raw_records (file_lines (written o1 b))) =
       map (\<lambda>r. (CHR ''>'' # c @ [LF], snd r)) (with_id c (records (file_lines asm)))"
proof -
  let ?m = "load_bin_contig_map tsv"
  let ?recs = "records (file_lines asm)"
  have wf: "wf_dict ?m" by (rule wf_load_bin_contig_map)
  from assms(3) obtain o1 where s: "split_fasta_by_bin asm ?m od = Inr o1"
    using split_returns by blast
  have w: "written o1 b = concat (map render (owned ?m b ?recs))"
    using wf s by (rule split_written)
  have own: "with_id c (owned ?m b ?recs) = with_id c ?recs"
    using assms(1) by (rule with_id_owned)
  have each: "\<forall>r \<in> set (with_id c ?recs).
      render r = CHR ''>'' # c @ LF # concat (snd r) \<and> set (snd r) \<subseteq> set (file_lines asm)"
  proof
    fix r assume "r \<in> set (with_id c ?recs)"
    then have r: "r \<in> set ?recs" and c: "fst r = c" by (simp_all add: with_id_def)
    from records_ids [OF assms(3) r] have "set (snd r) \<subseteq> set (file_lines asm)" by simp
    with c show "render r = CHR ''>'' # c @ LF # concat (snd r) \<and>
        set (snd r) \<subseteq> set (file_lines asm)"
      by (simp add: render_def)
  qed
  have one: "\<forall>r. with_id c ?recs = [r] \<longrightarrow>
      (\<exists>us vs. written o1 b =
           concat (map render us) @ CHR ''>'' # c @ LF # concat (snd r) @ concat (map render vs) \<and>
         c \<notin> fst ` set us \<and> c \<notin> fst ` set vs)"
  proof (intro allI impI)
    fix r assume "with_id c ?recs = [r]"
    then have f: "filter (\<lambda>r. fst r = c) (owned ?m b ?recs) = [r]"
      using own by (simp add: with_id_def)
    then obtain us vs where o: "owned ?m b ?recs = us @ [r] @ vs"
      and us: "\<forall>u \<in> set us. fst u \<noteq> c" and vs: "\<forall>v \<in> set vs. fst v \<noteq> c"
      using filter_single [OF f] by blast
    from f have "r \<in> set (filter (\<lambda>r. fst r = c) (owned ?m b ?recs))" by simp
    then have "fst r = c" by simp
    then have "render r = CHR ''>'' # c @ LF # concat (snd r)" by (simp add: render_def)
    then have "written o1 b =
        concat (map render us) @ CHR ''>'' # c @ LF # concat (snd r) @ concat (map render vs)"
      unfolding w o by simp
    moreover have "c \<notin> fst ` set us" "c \<notin> fst ` set vs" using us vs by auto
    ultimately show "\<exists>us vs. written o1 b =
           concat (map render us) @ CHR ''>'' # c @ LF # concat (snd r) @ concat (map render vs) \<and>
         c \<notin> fst ` set us \<and> c \<notin> fst ` set vs"
      by blast
  qed
  have tr: "concat (file_lines asm) = translate_newlines asm"
    by (simp add: file_lines_def keepends_concat)
  have nocr: "CR \<notin> set (written o1 b)"
    unfolding w using owned_records_ok(1) [OF assms(3)] by (rule no_CR_rendered)
  have rr: "records (file_lines (written o1 b)) = owned ?m b ?recs"
    using wf s by (rule split_reread(3))
  have a: "with_id c (records (file_lines (written o1 b))) = with_id c ?recs"
    unfolding rr by (rule own)
  have tok: "list_all (\<lambda>r. is_token (fst r)) (owned ?m b ?recs)"
    using owned_records_ok(1) [OF assms(3), of ?m b] by (simp add: list_all_iff)
  have "filter (\<lambda>r. token_of (fst r) = c) (raw_records (file_lines (written o1 b))) =
      map (\<lambda>r. (CHR ''>'' # c @ [LF], snd r)) (with_id c (owned ?m b ?recs))"
    unfolding split_reread(2) [OF wf s] using tok by (rule headers_with_id)
  then have h: "filter (\<lambda>r. token_of (fst r) = c) (raw_records (file_lines (written o1 b))) =
      map (\<lambda>r. (CHR ''>'' # c @ [LF], snd r)) (with_id c ?recs)"
    unfolding own .
  have f: "with_id c ?recs \<noteq> [] \<longrightarrow> files o1 (fasta_name b) = Some (written o1 b)"
  proof
    assume "with_id c ?recs \<noteq> []"
    then have "with_id c (owned ?m b ?recs) \<noteq> []" unfolding own .
    then have "owned ?m b ?recs \<noteq> []" by (auto simp: with_id_def)
    then have "b \<in> set (writers o1)" using split_writers [OF wf s] by simp
    with s show "files o1 (fasta_name b) = Some (written o1 b)" by (rule split_files)
  qed
  from s w own each one tr translate_newlines_no_CR [of asm] nocr f a h
  show ?thesis by (intro exI [of _ o1] conjI)
qed

theorem pair_records_written_witness:
  "\<exists>o1. split_fasta_by_bin (''>c1 len=2'' @ [CR, LF] @ ''AC'' @ [CR, LF] @ ''>c9'' @ [LF] @ ''GT'')
       (load_bin_contig_map (''bin contig'' @ [LF] @ ''A c1'' @ [LF])) None = Inr o1 \<and>
     written o1 ''A'' = ''>c1'' @ [LF] @ ''AC'' @ [LF] \<and>
     files o1 (fasta_name ''A'') = Some (''>c1'' @ [LF] @ ''AC'' @ [LF]) \<and>
     CR \<notin> set (written o1 ''A'') \<and>
     with_id ''c1'' (records (file_lines (written o1 ''A''))) = [(''c1'', [''AC'' @ [LF]])]"
proof -
  let ?asm = "''>c1 len=2'' @ [CR, LF] @ ''AC'' @ [CR, LF] @ ''>c9'' @ [LF] @ ''GT''"
  let ?tsv = "''bin contig'' @ [LF] @ ''A c1'' @ [LF]"
  have ld: "load_bin_contig_map ?tsv = [(''A'', [''c1''])]"
    by (simp add: load_bin_contig_map_def file_lines_def load_line_def strip_def isspace_def
        split_ws.simps)
  have p: "(''A'', ''c1'') \<in> pairs_of (load_bin_contig_map ?tsv)"
    unfolding ld by (simp add: pairs_of_def)
  have pl: "plain_bins (load_bin_contig_map ?tsv)"
    unfolding ld by (simp add: plain_bins_def plain_name_def)
  have fl: "file_lines ?asm = [''>c1 len=2'' @ [LF], ''AC'' @ [LF], ''>c9'' @ [LF], ''GT'']"
    by (simp add: file_lines_def)
  have good: "\<not> list_ex bad_marker (file_lines ?asm)"
    unfolding fl by (simp add: bad_marker_def startswith_marker_def strip_def isspace_def split_ws.simps)
  have recs: "records (file_lines ?asm) = [(''c1'', [''AC'' @ [LF]]), (''c9'', [''GT''])]"
    unfolding fl
    by (simp add: records_def startswith_marker_def token_of_def strip_def isspace_def
        split_ws.simps)
  have ow: "owned [(''A'', [''c1''])] ''A'' [(''c1'', [''AC'' @ [LF]]), (''c9'', [''GT''])] =
      [(''c1'', [''AC'' @ [LF]])]"
    by (simp add: owned_def pairs_of_def)
  have wi: "with_id ''c1'' [(''c1'', [''AC'' @ [LF]]), (''c9'', [''GT''])] = [(''c1'', [''AC'' @ [LF]])]"
    by (simp add: with_id_def)
  have re: "concat (map render [(''c1'', [''AC'' @ [LF]])]) = ''>c1'' @ [LF] @ ''AC'' @ [LF]"
    by (simp add: render_def)
  from pair_records_written [OF p pl good, of None]
  obtain o1 where s: "split_fasta_by_bin ?asm (load_bin_contig_map ?tsv) None = Inr o1"
    and w: "written o1 ''A'' =
      concat (map render (owned (load_bin_contig_map ?tsv) ''A'' (records (file_lines ?asm))))"
    and n: "CR \<notin> set (written o1 ''A'')"
    and f: "with_id ''c1'' (records (file_lines ?asm)) \<noteq> [] \<longrightarrow>
        files o1 (fasta_name ''A'') = Some (written o1 ''A'')"
    and a: "with_id ''c1'' (records (file_lines (written o1 ''A''))) =
        with_id ''c1'' (records (file_lines ?asm))"
    by blast
  from w have w': "written o1 ''A'' = ''>c1'' @ [LF] @ ''AC'' @ [LF]"
    unfolding ld recs ow re .
  from f have f': "files o1 (fasta_name ''A'') = Some (''>c1'' @ [LF] @ ''AC'' @ [LF])"
    unfolding recs wi w' by simp
  from a have a': "with_id ''c1'' (records (file_lines (written o1 ''A''))) = [(''c1'', [''AC'' @ [LF]])]"
    unfolding recs wi .
  from s w' f' n a' show ?thesis by (intro exI [of _ o1] conjI)
qed

text \<open>
  Claim C2. The table of the example loads as bin A with c1 and c2 and bin B with c2. On
  any sequence file whose records are c1, c2 and c3, in that order, the run returns having
  opened two handles, for A and then B: the file of A holds the records c1 and c2, the
  file of B holds the record c2, and every other name of the directory, the file of a bin
  C among them, is as the directory had it (absent in a new directory). The record c3 is
  in neither file.
\<close>

theorem example_two_bins:
  assumes "records (file_lines asm) = [(''c1'', b1), (''c2'', b2), (''c3'', b3)]"
  shows "load_bin_contig_map (''bin'' @ [CHR 0x09] @ ''contig'' @ [LF] @ ''A'' @ [CHR 0x09] @ ''c1'' @ [LF] @
            ''A'' @ [CHR 0x09] @ ''c2'' @ [LF] @ ''B'' @ [CHR 0x09] @ ''c2'') =
           [(''A'', [''c1'', ''c2'']), (''B'', [''c2''])] \<and>
         split_fasta_by_bin asm [(''A'', [''c1'', ''c2'']), (''B'', [''c2''])] od =
           Inr \<lparr>writers = [''A'', ''B''],
                files = (mkdir od)(''A.fasta'' \<mapsto> render (''c1'', b1) @ render (''c2'', b2),
                                   ''B.fasta'' \<mapsto> render (''c2'', b2))\<rparr> \<and>
         main \<lparr>assembly = Some asm,
               mapping = Some (''bin'' @ [CHR 0x09] @ ''contig'' @ [LF] @ ''A'' @ [CHR 0x09] @ ''c1'' @ [LF] @
                 ''A'' @ [CHR 0x09] @ ''c2'' @ [LF] @ ''B'' @ [CHR 0x09] @ ''c2''),
               outdir = None\<rparr> =
           Finished \<lparr>writers = [''A'', ''B''],
                files = [''A.fasta'' \<mapsto> render (''c1'', b1) @ render (''c2'', b2),
                         ''B.fasta'' \<mapsto> render (''c2'', b2)]\<rparr>"
proof -
  let ?tsv = "''bin'' @ [CHR 0x09] @ ''contig'' @ [LF] @ ''A'' @ [CHR 0x09] @ ''c1'' @ [LF] @
            ''A'' @ [CHR 0x09] @ ''c2'' @ [LF] @ ''B'' @ [CHR 0x09] @ ''c2''"
  let ?m = "[(''A'', [''c1'', ''c2'']), (''B'', [''c2''])]"
  have ld: "load_bin_contig_map ?tsv = ?m"
    by (simp add: load_bin_contig_map_def file_lines_def load_line_def strip_def isspace_def
        split_ws.simps)
  have good: "\<not> list_ex bad_marker (file_lines asm)"
  proof
    assume "list_ex bad_marker (file_lines asm)"
    then have "[] \<in> fst ` set (records (file_lines asm))" by (rule bad_marker_empty_id)
    then show False unfolding assms by simp
  qed
  have inv: "invert ?m = [''c1'' \<mapsto> [''A''], ''c2'' \<mapsto> [''A'', ''B'']]"
    by (simp add: invert_def append_bin_def)
  have ev: "foldl (emit (invert ?m)) \<lparr>writers = [], files = d\<rparr>
      [(''c1'', b1), (''c2'', b2), (''c3'', b3)] =
      \<lparr>writers = [''A'', ''B''],
        files = d(''A.fasta'' \<mapsto> render (''c1'', b1) @ render (''c2'', b2),
                  ''B.fasta'' \<mapsto> render (''c2'', b2))\<rparr>" for d
    unfolding inv
    by (simp add: emit_def flush_def write_to_bin_def fwrite_def fopen_w_def fasta_name_def
        render_def Let_def)
  have s: "split_fasta_by_bin asm ?m od =
      Inr \<lparr>writers = [''A'', ''B''],
        files = (mkdir od)(''A.fasta'' \<mapsto> render (''c1'', b1) @ render (''c2'', b2),
                           ''B.fasta'' \<mapsto> render (''c2'', b2))\<rparr>" for od
    using good by (simp only: split_fasta_by_bin_fold assms ev if_False)
  have e: "mkdir None = Map.empty" by (simp add: mkdir_def)
  have m: "main \<lparr>assembly = Some asm, mapping = Some ?tsv, outdir = None\<rparr> =
      Finished \<lparr>writers = [''A'', ''B''],
        files = [''A.fasta'' \<mapsto> render (''c1'', b1) @ render (''c2'', b2),
                 ''B.fasta'' \<mapsto> render (''c2'', b2)]\<rparr>"
    using s [of None] unfolding e by (simp add: main_def Let_def ld [simplified])
  from ld s m show ?thesis by (intro conjI)
qed

theorem example_two_bins_witness:
  "main \<lparr>assembly = Some (''>c1'' @ [LF] @ ''AAAA'' @ [LF] @ ''>c2 x'' @ [LF] @ ''CCCC'' @ [LF] @
             ''>c3'' @ [LF] @ ''GGGG'' @ [LF]),
         mapping = Some (''bin'' @ [CHR 0x09] @ ''contig'' @ [LF] @ ''A'' @ [CHR 0x09] @ ''c1'' @ [LF] @
             ''A'' @ [CHR 0x09] @ ''c2'' @ [LF] @ ''B'' @ [CHR 0x09] @ ''c2''),
         outdir = None\<rparr> =
     Finished \<lparr>writers = [''A'', ''B''],
       files = [''A.fasta'' \<mapsto> ''>c1'' @ [LF] @ ''AAAA'' @ [LF] @ ''>c2'' @ [LF] @ ''CCCC'' @ [LF],
                ''B.fasta'' \<mapsto> ''>c2'' @ [LF] @ ''CCCC'' @ [LF]]\<rparr> \<and>
   [''A.fasta'' \<mapsto> ''>c1'' @ [LF] @ ''AAAA'' @ [LF] @ ''>c2'' @ [LF] @ ''CCCC'' @ [LF],
    ''B.fasta'' \<mapsto> ''>c2'' @ [LF] @ ''CCCC'' @ [LF]] ''C.fasta'' = None"
proof -
  let ?asm = "''>c1'' @ [LF] @ ''AAAA'' @ [LF] @ ''>c2 x'' @ [LF] @ ''CCCC'' @ [LF] @
             ''>c3'' @ [LF] @ ''GGGG'' @ [LF]"
  have recs: "records (file_lines ?asm) =
      [(''c1'', [''AAAA'' @ [LF]]), (''c2'', [''CCCC'' @ [LF]]), (''c3'', [''GGGG'' @ [LF]])]"
    by (simp add: file_lines_def records_def startswith_marker_def token_of_def strip_def
        isspace_def split_ws.simps)
  from example_two_bins [OF recs, of None, THEN conjunct2, THEN conjunct2]
  show ?thesis
    by (simp add: render_def)
qed

text \<open>
  Claim C3. Let the table have at most 250 bins, their names plain file names, and let
  every marker line have a token. The splitter takes the records of the sequence file in file order and
  flushes each one on its own: the run is the fold of \<open>emit\<close> over the records, and one
  \<open>emit\<close> appends the text of its record to the file of every bin that owns the
  identifier. Nothing is deduplicated: the text written to the file of a bin is the
  concatenation of the texts of all the records it owns, and in the file of an owning bin
  the records with an identifier carry, in order, the bodies of the occurrences of that
  identifier in the sequence file.
\<close>

theorem occurrences_flushed_in_file_order:
  assumes "wf_dict m" and "\<not> list_ex bad_marker (file_lines asm)" and "plain_bins m"
  shows "split_fasta_by_bin asm m od =
           Inr (foldl (emit (invert m)) \<lparr>writers = [], files = mkdir od\<rparr>
                  (records (file_lines asm))) \<and>
         (\<forall>o2 r b. written (emit (invert m) o2 r) b =
              written o2 b @ (if (b, fst r) \<in> pairs_of m then render r else [])) \<and>
         (\<forall>b o1. split_fasta_by_bin asm m od = Inr o1 \<longrightarrow>
              written o1 b = concat (map render (owned m b (records (file_lines asm))))) \<and>
         (\<forall>b c o1. split_fasta_by_bin asm m od = Inr o1 \<and> (b, c) \<in> pairs_of m \<longrightarrow>
              map snd (with_id c (records (file_lines (written o1 b)))) =
                map snd (with_id c (records (file_lines asm))))"
proof (intro conjI allI impI)
  show "split_fasta_by_bin asm m od =
      Inr (foldl (emit (invert m)) \<lparr>writers = [], files = mkdir od\<rparr> (records (file_lines asm)))"
    using assms(2) by (simp add: split_fasta_by_bin_fold)
next
  fix o2 r b
  show "written (emit (invert m) o2 r) b =
      written o2 b @ (if (b, fst r) \<in> pairs_of m then render r else [])"
  proof -
    have d: "distinct (owners (invert m) (fst r))"
      using assms(1) by (rule distinct_owners_invert)
    show ?thesis
      using assms(1) by (simp add: written_emit [OF d] owners_invert set_bins_of)
  qed
next
  fix b o1
  assume "split_fasta_by_bin asm m od = Inr o1"
  with assms(1) show "written o1 b = concat (map render (owned m b (records (file_lines asm))))"
    by (rule split_written)
next
  fix b c o1
  assume a: "split_fasta_by_bin asm m od = Inr o1 \<and> (b, c) \<in> pairs_of m"
  then have s: "split_fasta_by_bin asm m od = Inr o1" by simp
  have "records (file_lines (written o1 b)) = owned m b (records (file_lines asm))"
    using assms(1) s by (rule split_reread(3))
  with a show "map snd (with_id c (records (file_lines (written o1 b)))) =
      map snd (with_id c (records (file_lines asm)))"
    by (simp add: with_id_owned)
qed

theorem occurrences_flushed_in_file_order_witness:
  "split_fasta_by_bin
     (''>c1'' @ [LF] @ ''AA'' @ [LF] @ ''>c2'' @ [LF] @ ''GG'' @ [LF] @ ''>c1 again'' @ [LF] @ ''CC'' @ [LF])
     [(''A'', [''c1'']), (''B'', [''c1'', ''c2''])] None =
   Inr \<lparr>writers = [''A'', ''B''],
        files = [''A.fasta'' \<mapsto> ''>c1'' @ [LF] @ ''AA'' @ [LF] @ ''>c1'' @ [LF] @ ''CC'' @ [LF],
                 ''B.fasta'' \<mapsto> ''>c1'' @ [LF] @ ''AA'' @ [LF] @ ''>c2'' @ [LF] @ ''GG'' @ [LF] @
                    ''>c1'' @ [LF] @ ''CC'' @ [LF]]\<rparr> \<and>
   map snd (with_id ''c1'' (records (file_lines
     (''>c1'' @ [LF] @ ''AA'' @ [LF] @ ''>c1'' @ [LF] @ ''CC'' @ [LF])))) =
     [[''AA'' @ [LF]], [''CC'' @ [LF]]]"
proof -
  let ?asm = "''>c1'' @ [LF] @ ''AA'' @ [LF] @ ''>c2'' @ [LF] @ ''GG'' @ [LF] @ ''>c1 again'' @ [LF] @ ''CC'' @ [LF]"
  let ?m = "[(''A'', [''c1'']), (''B'', [''c1'', ''c2''])]"
  let ?o = "\<lparr>writers = [''A'', ''B''],
        files = [''A.fasta'' \<mapsto> ''>c1'' @ [LF] @ ''AA'' @ [LF] @ ''>c1'' @ [LF] @ ''CC'' @ [LF],
                 ''B.fasta'' \<mapsto> ''>c1'' @ [LF] @ ''AA'' @ [LF] @ ''>c2'' @ [LF] @ ''GG'' @ [LF] @
                    ''>c1'' @ [LF] @ ''CC'' @ [LF]]\<rparr>"
  have wf: "wf_dict ?m" by (simp add: wf_dict_def)
  have fl: "file_lines ?asm = [''>c1'' @ [LF], ''AA'' @ [LF], ''>c2'' @ [LF], ''GG'' @ [LF],
      ''>c1 again'' @ [LF], ''CC'' @ [LF]]"
    by (simp add: file_lines_def)
  have good: "\<not> list_ex bad_marker (file_lines ?asm)"
    unfolding fl by (simp add: bad_marker_def startswith_marker_def strip_def isspace_def split_ws.simps)
  have recs: "records (file_lines ?asm) =
      [(''c1'', [''AA'' @ [LF]]), (''c2'', [''GG'' @ [LF]]), (''c1'', [''CC'' @ [LF]])]"
    unfolding fl
    by (simp add: records_def startswith_marker_def token_of_def strip_def isspace_def
        split_ws.simps)
  have pl: "plain_bins ?m" by (simp add: plain_bins_def plain_name_def)
  note th = occurrences_flushed_in_file_order [OF wf good pl, of None]
  have ev: "foldl (emit (invert ?m)) \<lparr>writers = [], files = mkdir None\<rparr>
      [(''c1'', [''AA'' @ [LF]]), (''c2'', [''GG'' @ [LF]]), (''c1'', [''CC'' @ [LF]])] = ?o"
    by (simp add: emit_def invert_def append_bin_def flush_def write_to_bin_def fwrite_def
        fopen_w_def fasta_name_def mkdir_def Let_def fun_upd_twist)
  have s: "split_fasta_by_bin ?asm ?m None = Inr ?o"
    using th [THEN conjunct1] unfolding recs ev .
  have p: "(''A'', ''c1'') \<in> pairs_of ?m" by (simp add: pairs_of_def)
  have w: "written ?o ''A'' = ''>c1'' @ [LF] @ ''AA'' @ [LF] @ ''>c1'' @ [LF] @ ''CC'' @ [LF]"
    by (simp add: written_def fasta_name_def)
  from th have gen: "\<And>b c o1. split_fasta_by_bin ?asm ?m None = Inr o1 \<and> (b, c) \<in> pairs_of ?m \<Longrightarrow>
      map snd (with_id c (records (file_lines (written o1 b)))) =
        map snd (with_id c (records (file_lines ?asm)))"
    by blast
  have "map snd (with_id ''c1'' (records (file_lines (written ?o ''A'')))) =
      map snd (with_id ''c1'' (records (file_lines ?asm)))"
    using s p by (intro gen conjI)
  then have b: "map snd (with_id ''c1'' (records (file_lines
     (''>c1'' @ [LF] @ ''AA'' @ [LF] @ ''>c1'' @ [LF] @ ''CC'' @ [LF])))) =
     [[''AA'' @ [LF]], [''CC'' @ [LF]]]"
    unfolding w recs by (simp add: with_id_def)
  from s b show ?thesis by (intro conjI)
qed

text \<open>
  Claim C4. A sequence file with a marker line that has no token after the marker (the
  marker alone, or the marker followed by whitespace only) makes the per-line parse index
  an empty token list: \<open>header_id\<close> raises \<open>IndexError\<close>, nothing catches it, the splitter
  does not return, and the command ends with the uncaught exception.
\<close>

theorem marker_without_token_raises:
  assumes "l \<in> set (file_lines asm)"
    and "startswith_marker l"
    and "\<forall>x \<in> set (tl l). isspace x"
    and "load_bin_contig_map tsv \<noteq> []"
  shows "header_id l = Inl IndexError \<and>
         split_fasta_by_bin asm m od = Inl IndexError \<and>
         main \<lparr>assembly = Some asm, mapping = Some tsv, outdir = od\<rparr> = Uncaught IndexError"
proof -
  from assms have bad: "bad_marker l" by (simp add: bad_marker_iff)
  then have "header_id l = Inl IndexError" by (rule header_id_bad)
  moreover from bad assms(1) have ex: "list_ex bad_marker (file_lines asm)"
    by (auto simp: list_ex_iff)
  then have "split_fasta_by_bin asm m od = Inl IndexError" for m
    by (simp add: split_fasta_by_bin_fold)
  ultimately show ?thesis
    using assms(4) by (simp add: main_def Let_def)
qed

theorem marker_without_token_raises_witness:
  "header_id (''> '' @ [LF]) = Inl IndexError \<and>
   split_fasta_by_bin (''>c1'' @ [LF] @ ''AC'' @ [LF] @ ''> '' @ [LF] @ ''GT'' @ [LF])
     [(''A'', [''c1''])] None = Inl IndexError \<and>
   main \<lparr>assembly = Some (''>c1'' @ [LF] @ ''AC'' @ [LF] @ ''> '' @ [LF] @ ''GT'' @ [LF]),
         mapping = Some (''bin contig'' @ [LF] @ ''A c1'' @ [LF]), outdir = None\<rparr>
     = Uncaught IndexError"
proof -
  have l: "''> '' @ [LF] \<in> set (file_lines (''>c1'' @ [LF] @ ''AC'' @ [LF] @ ''> '' @ [LF] @ ''GT'' @ [LF]))"
    by (simp add: file_lines_def)
  have m: "startswith_marker (''> '' @ [LF])"
    by (simp add: startswith_marker_def)
  have s: "\<forall>x \<in> set (tl (''> '' @ [LF])). isspace x"
    by (simp add: isspace_def)
  have ld: "load_bin_contig_map (''bin contig'' @ [LF] @ ''A c1'' @ [LF]) \<noteq> []"
    by (simp add: load_bin_contig_map_def file_lines_def load_line_def strip_def isspace_def
        split_ws.simps)
  show ?thesis
    using marker_without_token_raises [OF l m s ld, of "[(''A'', [''c1''])]" None]
    by simp
qed

text \<open>
  Claim C5, as stated, fails. The three cases are not the only ones in which the run ends
  with a message and a status other than 0 before any sequence is processed or any output
  written: a table path that exists and cannot be read as text ends it too, with an
  exception nobody catches, the output directory not even made.
\<close>

theorem three_exit_cases_counterexample:
  "main_io \<lparr>assembly_src = Readable (''>c1'' @ [LF] @ ''AC'' @ [LF]),
            mapping_src = Unreadable UnicodeDecodeError, out_dir = None\<rparr> =
     Raises UnicodeDecodeError None \<and>
   run_status (Raises UnicodeDecodeError None) = 1 \<and>
   Readable (''>c1'' @ [LF] @ ''AC'' @ [LF]) \<noteq> Missing \<and>
   Unreadable UnicodeDecodeError \<noteq> Missing \<and>
   Unreadable UnicodeDecodeError \<noteq> Readable (''bin contig'' @ [LF])"
  by (simp add: main_io_def run_status_def)

text \<open>
  Claim C5, amended. The command ends through \<^verbatim>\<open>sys.exit\<close>, with the message of its case,
  exactly when the assembly path does not exist, the table path does not exist, or the
  table can be read and has no row with two fields. It then leaves the output directory
  as it was, not made if it did not exist, and has not opened the assembly: the outcome
  is the same whatever the assembly path holds. A table path that exists and cannot be
  read ends the run with an uncaught exception, the output directory again as it was. An
  assembly that cannot be opened ends it with an uncaught exception after the output
  directory has been made. In every other case the outcome is the splitter's, and the
  exit status is 0 exactly when the splitter returns.
\<close>

theorem command_ends_early:
  "((\<exists>msg d. main_io w = Exits msg d) \<longleftrightarrow>
      assembly_src w = Missing \<or> mapping_src w = Missing \<or>
      (\<exists>tsv. mapping_src w = Readable tsv \<and> pairs_of (load_bin_contig_map tsv) = {})) \<and>
   (main_io w = Exits msg d \<longrightarrow> d = out_dir w) \<and>
   (main_io w = Exits msg d \<and> assembly_src w \<noteq> Missing \<and> s \<noteq> Missing \<longrightarrow>
      main_io (w\<lparr>assembly_src := s\<rparr>) = Exits msg d) \<and>
   (assembly_src w = Missing \<longrightarrow> main_io w = Exits Assembly_not_found (out_dir w)) \<and>
   (assembly_src w \<noteq> Missing \<and> mapping_src w = Missing \<longrightarrow>
      main_io w = Exits Mapping_file_not_found (out_dir w)) \<and>
   (assembly_src w \<noteq> Missing \<and> mapping_src w = Readable tsv \<and>
    pairs_of (load_bin_contig_map tsv) = {} \<longrightarrow>
      main_io w = Exits No_mappings_found (out_dir w)) \<and>
   (assembly_src w \<noteq> Missing \<and> mapping_src w = Unreadable err \<longrightarrow>
      main_io w = Raises err (out_dir w)) \<and>
   (assembly_src w = Unreadable err \<and> mapping_src w = Readable tsv \<and>
    pairs_of (load_bin_contig_map tsv) \<noteq> {} \<longrightarrow>
      main_io w = Raises err (Some (mkdir (out_dir w)))) \<and>
   (assembly_src w = Readable asm \<and> mapping_src w = Readable tsv \<and>
    pairs_of (load_bin_contig_map tsv) \<noteq> {} \<longrightarrow>
      main_io w = Splits (split_fasta_by_bin asm (load_bin_contig_map tsv) (out_dir w)) \<and>
      main \<lparr>assembly = Some asm, mapping = Some tsv, outdir = out_dir w\<rparr> =
        (case split_fasta_by_bin asm (load_bin_contig_map tsv) (out_dir w) of
           Inl e \<Rightarrow> Uncaught e | Inr o1 \<Rightarrow> Finished o1)) \<and>
   (run_status (main_io w) = 0 \<longleftrightarrow> (\<exists>o1. main_io w = Splits (Inr o1))) \<and>
   (pairs_of (load_bin_contig_map tsv) = {} \<longleftrightarrow>
      (\<forall>l \<in> set (drop 1 (file_lines tsv)). length (split_ws l) < 2))"
proof -
  have nil: "load_bin_contig_map t = [] \<longleftrightarrow> pairs_of (load_bin_contig_map t) = {}" for t
    by (simp add: load_eq_Nil pairs_of_load_bin_contig_map)
  have c1: "(\<exists>msg d. main_io w = Exits msg d) \<longleftrightarrow>
      assembly_src w = Missing \<or> mapping_src w = Missing \<or>
      (\<exists>tsv. mapping_src w = Readable tsv \<and> pairs_of (load_bin_contig_map tsv) = {})"
    by (cases "assembly_src w"; cases "mapping_src w")
       (simp_all add: main_io_def Let_def nil)
  have c2: "main_io w = Exits msg d \<longrightarrow> d = out_dir w"
    by (cases "assembly_src w"; cases "mapping_src w")
       (auto simp: main_io_def Let_def split: if_splits)
  have c3: "main_io w = Exits msg d \<and> assembly_src w \<noteq> Missing \<and> s \<noteq> Missing \<longrightarrow>
      main_io (w\<lparr>assembly_src := s\<rparr>) = Exits msg d"
    by (cases "assembly_src w"; cases "mapping_src w"; cases s)
       (auto simp: main_io_def Let_def split: if_splits)
  have c4: "assembly_src w = Missing \<longrightarrow> main_io w = Exits Assembly_not_found (out_dir w)"
    by (simp add: main_io_def)
  have c5: "assembly_src w \<noteq> Missing \<and> mapping_src w = Missing \<longrightarrow>
      main_io w = Exits Mapping_file_not_found (out_dir w)"
    by (simp add: main_io_def)
  have c6: "assembly_src w \<noteq> Missing \<and> mapping_src w = Readable tsv \<and>
      pairs_of (load_bin_contig_map tsv) = {} \<longrightarrow>
      main_io w = Exits No_mappings_found (out_dir w)"
    by (simp add: main_io_def Let_def nil)
  have c7: "assembly_src w \<noteq> Missing \<and> mapping_src w = Unreadable err \<longrightarrow>
      main_io w = Raises err (out_dir w)"
    by (simp add: main_io_def)
  have c8: "assembly_src w = Unreadable err \<and> mapping_src w = Readable tsv \<and>
      pairs_of (load_bin_contig_map tsv) \<noteq> {} \<longrightarrow>
      main_io w = Raises err (Some (mkdir (out_dir w)))"
    by (simp add: main_io_def Let_def nil)
  have c9: "assembly_src w = Readable asm \<and> mapping_src w = Readable tsv \<and>
      pairs_of (load_bin_contig_map tsv) \<noteq> {} \<longrightarrow>
      main_io w = Splits (split_fasta_by_bin asm (load_bin_contig_map tsv) (out_dir w)) \<and>
      main \<lparr>assembly = Some asm, mapping = Some tsv, outdir = out_dir w\<rparr> =
        (case split_fasta_by_bin asm (load_bin_contig_map tsv) (out_dir w) of
           Inl e \<Rightarrow> Uncaught e | Inr o1 \<Rightarrow> Finished o1)"
    by (simp add: main_io_def main_def Let_def nil)
  have c10: "run_status (main_io w) = 0 \<longleftrightarrow> (\<exists>o1. main_io w = Splits (Inr o1))"
    by (cases "main_io w") (auto simp: run_status_def split: sum.splits)
  have c11: "pairs_of (load_bin_contig_map tsv) = {} \<longleftrightarrow>
      (\<forall>l \<in> set (drop 1 (file_lines tsv)). length (split_ws l) < 2)"
    by (auto simp: pairs_of_load_bin_contig_map row_pairs_def not_less)
  from c1 c2 c3 c4 c5 c6 c7 c8 c9 c10 c11 show ?thesis by (intro conjI)
qed

theorem command_ends_early_witness:
  "main_io \<lparr>assembly_src = Missing, mapping_src = Readable (''bin contig'' @ [LF] @ ''A c1'' @ [LF]),
      out_dir = None\<rparr> = Exits Assembly_not_found None \<and>
   main_io \<lparr>assembly_src = Unreadable IsADirectoryError, mapping_src = Missing,
      out_dir = None\<rparr> = Exits Mapping_file_not_found None \<and>
   main_io \<lparr>assembly_src = Readable (''>c1'' @ [LF] @ ''AC'' @ [LF]),
      mapping_src = Readable (''bin contig'' @ [LF] @ ''lonely'' @ [LF]),
      out_dir = Some [''notes.txt'' \<mapsto> ''keep'']\<rparr> =
     Exits No_mappings_found (Some [''notes.txt'' \<mapsto> ''keep'']) \<and>
   main_io \<lparr>assembly_src = Unreadable IsADirectoryError,
      mapping_src = Readable (''bin contig'' @ [LF] @ ''A c1'' @ [LF]),
      out_dir = None\<rparr> = Raises IsADirectoryError (Some Map.empty) \<and>
   main_io \<lparr>assembly_src = Readable (''>c1'' @ [LF] @ ''AC'' @ [LF]),
      mapping_src = Readable (''bin contig'' @ [LF] @ ''A c1'' @ [LF]),
      out_dir = None\<rparr> =
     Splits (Inr \<lparr>writers = [''A''], files = [''A.fasta'' \<mapsto> ''>c1'' @ [LF] @ ''AC'' @ [LF]]\<rparr>)"
proof -
  let ?asm = "''>c1'' @ [LF] @ ''AC'' @ [LF]"
  let ?tsv = "''bin contig'' @ [LF] @ ''A c1'' @ [LF]"
  let ?hdr = "''bin contig'' @ [LF] @ ''lonely'' @ [LF]"
  let ?wa = "\<lparr>assembly_src = Missing, mapping_src = Readable ?tsv, out_dir = None\<rparr>"
  let ?wb = "\<lparr>assembly_src = Unreadable IsADirectoryError, mapping_src = Missing, out_dir = None\<rparr>"
  let ?wc = "\<lparr>assembly_src = Readable ?asm, mapping_src = Readable ?hdr,
      out_dir = Some [''notes.txt'' \<mapsto> ''keep'']\<rparr>"
  let ?wd = "\<lparr>assembly_src = Unreadable IsADirectoryError, mapping_src = Readable ?tsv,
      out_dir = None\<rparr>"
  let ?we = "\<lparr>assembly_src = Readable ?asm, mapping_src = Readable ?tsv, out_dir = None\<rparr>"
  have lh: "load_bin_contig_map ?hdr = []"
    by (simp add: load_bin_contig_map_def file_lines_def load_line_def strip_def isspace_def
        split_ws.simps)
  have lt: "load_bin_contig_map ?tsv = [(''A'', [''c1''])]"
    by (simp add: load_bin_contig_map_def file_lines_def load_line_def strip_def isspace_def
        split_ws.simps)
  have ph: "pairs_of (load_bin_contig_map ?hdr) = {}"
    unfolding lh by (simp add: pairs_of_def)
  have pt: "pairs_of (load_bin_contig_map ?tsv) \<noteq> {}"
    unfolding lt by (auto simp: pairs_of_def)
  have ev: "split_fasta_by_bin ?asm (load_bin_contig_map ?tsv) None =
     Inr \<lparr>writers = [''A''], files = [''A.fasta'' \<mapsto> ''>c1'' @ [LF] @ ''AC'' @ [LF]]\<rparr>"
    unfolding lt
    by (simp add: split_fasta_by_bin_def file_lines_def invert_def append_bin_def step_def
        startswith_marker_def header_id_def strip_def isspace_def split_ws.simps flush_def
        write_to_bin_def fwrite_def fopen_w_def fasta_name_def mkdir_def Let_def)
  have "assembly_src ?wa = Missing \<longrightarrow> main_io ?wa = Exits Assembly_not_found (out_dir ?wa)"
    by (rule command_ends_early [THEN conjunct2, THEN conjunct2, THEN conjunct2, THEN conjunct1])
  then have a: "main_io ?wa = Exits Assembly_not_found None" by simp
  have "assembly_src ?wb \<noteq> Missing \<and> mapping_src ?wb = Missing \<longrightarrow>
      main_io ?wb = Exits Mapping_file_not_found (out_dir ?wb)"
    by (rule command_ends_early [THEN conjunct2, THEN conjunct2, THEN conjunct2, THEN conjunct2, THEN conjunct1])
  then have b: "main_io ?wb = Exits Mapping_file_not_found None" by simp
  have "assembly_src ?wc \<noteq> Missing \<and> mapping_src ?wc = Readable ?hdr \<and>
      pairs_of (load_bin_contig_map ?hdr) = {} \<longrightarrow>
      main_io ?wc = Exits No_mappings_found (out_dir ?wc)"
    by (rule command_ends_early [THEN conjunct2, THEN conjunct2, THEN conjunct2, THEN conjunct2, THEN conjunct2, THEN conjunct1])
  with ph have c: "main_io ?wc = Exits No_mappings_found (Some [''notes.txt'' \<mapsto> ''keep''])"
    by simp
  have "assembly_src ?wd = Unreadable IsADirectoryError \<and> mapping_src ?wd = Readable ?tsv \<and>
      pairs_of (load_bin_contig_map ?tsv) \<noteq> {} \<longrightarrow>
      main_io ?wd = Raises IsADirectoryError (Some (mkdir (out_dir ?wd)))"
    by (rule command_ends_early [THEN conjunct2, THEN conjunct2, THEN conjunct2, THEN conjunct2, THEN conjunct2, THEN conjunct2, THEN conjunct2, THEN conjunct1])
  with pt have d: "main_io ?wd = Raises IsADirectoryError (Some Map.empty)"
    by (simp add: mkdir_def)
  have "assembly_src ?we = Readable ?asm \<and> mapping_src ?we = Readable ?tsv \<and>
      pairs_of (load_bin_contig_map ?tsv) \<noteq> {} \<longrightarrow>
      main_io ?we = Splits (split_fasta_by_bin ?asm (load_bin_contig_map ?tsv) (out_dir ?we)) \<and>
      main \<lparr>assembly = Some ?asm, mapping = Some ?tsv, outdir = out_dir ?we\<rparr> =
        (case split_fasta_by_bin ?asm (load_bin_contig_map ?tsv) (out_dir ?we) of
           Inl e \<Rightarrow> Uncaught e | Inr o1 \<Rightarrow> Finished o1)"
    by (rule command_ends_early [THEN conjunct2, THEN conjunct2, THEN conjunct2, THEN conjunct2, THEN conjunct2, THEN conjunct2, THEN conjunct2, THEN conjunct2, THEN conjunct1])
  with pt have "main_io ?we = Splits (split_fasta_by_bin ?asm (load_bin_contig_map ?tsv) None)"
    by simp
  then have e: "main_io ?we =
      Splits (Inr \<lparr>writers = [''A''], files = [''A.fasta'' \<mapsto> ''>c1'' @ [LF] @ ''AC'' @ [LF]]\<rparr>)"
    unfolding ev .
  from a b c d e show ?thesis by (intro conjI)
qed

text \<open>
  Claim C6. The loader drops the first line of the table whatever it holds. Each later
  line is split on whitespace; a line with fewer than two fields leaves the table as it
  is, and a line with two or more adds its second field to the set of its first field,
  the other fields unused. The loaded table stands for exactly the pairs of those rows,
  its bins are distinct and the set of a bin repeats no identifier.
\<close>

theorem loader_rows:
  "(CR \<notin> set h \<and> LF \<notin> set h \<longrightarrow>
      load_bin_contig_map (h @ LF # rest) = foldl load_line [] (file_lines rest)) \<and>
   load_line m line =
     (if length (split_ws line) < 2 then m
      else dict_set_add (split_ws line ! 0) (split_ws line ! 1) m) \<and>
   pairs_of (dict_set_add b c m) = insert (b, c) (pairs_of m) \<and>
   pairs_of (load_bin_contig_map tsv) =
     {(f ! 0, f ! 1) | l f. l \<in> set (drop 1 (file_lines tsv)) \<and> f = split_ws l \<and> 2 \<le> length f} \<and>
   wf_dict (load_bin_contig_map tsv)"
proof (intro conjI impI)
  assume "CR \<notin> set h \<and> LF \<notin> set h"
  then show "load_bin_contig_map (h @ LF # rest) = foldl load_line [] (file_lines rest)"
    by (simp add: load_bin_contig_map_def file_lines_first)
next
  show "load_line m line =
     (if length (split_ws line) < 2 then m
      else dict_set_add (split_ws line ! 0) (split_ws line ! 1) m)"
    by (rule load_line_eq)
next
  show "pairs_of (dict_set_add b c m) = insert (b, c) (pairs_of m)"
    by (rule pairs_of_dict_set_add)
next
  show "pairs_of (load_bin_contig_map tsv) =
     {(f ! 0, f ! 1) | l f. l \<in> set (drop 1 (file_lines tsv)) \<and> f = split_ws l \<and> 2 \<le> length f}"
    using pairs_of_load_bin_contig_map [of tsv] by (simp add: row_pairs_def)
next
  show "wf_dict (load_bin_contig_map tsv)"
    by (rule wf_load_bin_contig_map)
qed

theorem loader_rows_witness:
  "load_bin_contig_map (''A c0'' @ LF # ''A c1 extra'' @ [LF] @ ''lonely'' @ [LF] @ [LF] @
      ''B'' @ [CHR 0x09] @ ''c2'' @ [CR, LF] @ ''  A  c1'' @ [LF] @ ''A c2'') =
     foldl load_line [] (file_lines (''A c1 extra'' @ [LF] @ ''lonely'' @ [LF] @ [LF] @
      ''B'' @ [CHR 0x09] @ ''c2'' @ [CR, LF] @ ''  A  c1'' @ [LF] @ ''A c2'')) \<and>
   foldl load_line [] (file_lines (''A c1 extra'' @ [LF] @ ''lonely'' @ [LF] @ [LF] @
      ''B'' @ [CHR 0x09] @ ''c2'' @ [CR, LF] @ ''  A  c1'' @ [LF] @ ''A c2'')) =
     [(''A'', [''c1'', ''c2'']), (''B'', [''c2''])]"
proof -
  let ?rest = "''A c1 extra'' @ [LF] @ ''lonely'' @ [LF] @ [LF] @
      ''B'' @ [CHR 0x09] @ ''c2'' @ [CR, LF] @ ''  A  c1'' @ [LF] @ ''A c2''"
  have h: "CR \<notin> set ''A c0'' \<and> LF \<notin> set ''A c0''" by simp
  have "load_bin_contig_map (''A c0'' @ LF # ?rest) = foldl load_line [] (file_lines ?rest)"
    using loader_rows [of "''A c0''" ?rest, THEN conjunct1, THEN mp, OF h] .
  moreover have "foldl load_line [] (file_lines ?rest) =
      [(''A'', [''c1'', ''c2'']), (''B'', [''c2''])]"
    by (simp add: file_lines_def load_line_def strip_def isspace_def split_ws.simps)
  ultimately show ?thesis by (intro conjI)
qed

text \<open>
  Claim C7. The outcome of the command is a function of its two input texts and of the
  output directory, and it does not depend on the order in which a set of the table is
  enumerated. The handles and the texts of the files written do not depend on what the
  directory held: a file is truncated when its handle is opened, never appended to. A
  second run, into the directory the first run left, returns the same outputs and leaves
  every file as it was; a run that failed fails again in the same way.
\<close>

theorem rerun_writes_same_files:
  "(split_fasta_by_bin asm m od = Inr o1 \<longrightarrow>
      split_fasta_by_bin asm m (Some (files o1)) = Inr o1) \<and>
   (split_fasta_by_bin asm m od = Inr o1 \<and> split_fasta_by_bin asm m od' = Inr o2 \<longrightarrow>
      writers o1 = writers o2 \<and>
      (\<forall>b \<in> set (writers o1). files o1 (fasta_name b) = files o2 (fasta_name b))) \<and>
   (split_fasta_by_bin asm m od = Inl err \<longrightarrow> split_fasta_by_bin asm m od' = Inl err) \<and>
   (wf_dict m \<and> wf_dict m' \<and> same_dict m m' \<longrightarrow>
      split_fasta_by_bin asm m od = split_fasta_by_bin asm m' od) \<and>
   (main e = Finished o1 \<longrightarrow> main (e\<lparr>outdir := Some (files o1)\<rparr>) = Finished o1) \<and>
   (main e = SysExit msg \<longrightarrow> main (e\<lparr>outdir := od\<rparr>) = SysExit msg) \<and>
   (main e = Uncaught err \<longrightarrow> main (e\<lparr>outdir := od\<rparr>) = Uncaught err)"
proof (intro conjI impI)
  assume "split_fasta_by_bin asm m od = Inr o1"
  then show "split_fasta_by_bin asm m (Some (files o1)) = Inr o1" by (rule split_rerun)
next
  assume a: "split_fasta_by_bin asm m od = Inr o1 \<and> split_fasta_by_bin asm m od' = Inr o2"
  then have "split_fasta_by_bin asm m od = Inr o1" "split_fasta_by_bin asm m od' = Inr o2"
    by simp_all
  then have sw: "same_written o1 o2" by (rule split_same_written)
  then show "writers o1 = writers o2" by (simp add: same_written_def)
  from sw show "\<forall>b \<in> set (writers o1). files o1 (fasta_name b) = files o2 (fasta_name b)"
    by (simp add: same_written_def list_all_iff)
next
  assume "split_fasta_by_bin asm m od = Inl err"
  then show "split_fasta_by_bin asm m od' = Inl err" by (rule split_error_any_dir)
next
  assume "wf_dict m \<and> wf_dict m' \<and> same_dict m m'"
  then have "wf_dict m" "wf_dict m'" "same_dict m m'" by simp_all
  then show "split_fasta_by_bin asm m od = split_fasta_by_bin asm m' od"
    by (rule split_same_dict)
next
  assume f: "main e = Finished o1"
  then obtain a t where e: "assembly e = Some a" "mapping e = Some t"
    "load_bin_contig_map t \<noteq> []"
    and s: "split_fasta_by_bin a (load_bin_contig_map t) (outdir e) = Inr o1"
    by (auto simp: main_def Let_def split: option.splits if_splits sum.splits)
  from s have "split_fasta_by_bin a (load_bin_contig_map t) (Some (files o1)) = Inr o1"
    by (rule split_rerun)
  with e show "main (e\<lparr>outdir := Some (files o1)\<rparr>) = Finished o1"
    by (simp add: main_def Let_def)
next
  assume "main e = SysExit msg"
  then show "main (e\<lparr>outdir := od\<rparr>) = SysExit msg"
    by (auto simp: main_def Let_def split: option.splits if_splits sum.splits)
next
  assume f: "main e = Uncaught err"
  then obtain a t where e: "assembly e = Some a" "mapping e = Some t"
    "load_bin_contig_map t \<noteq> []"
    and s: "split_fasta_by_bin a (load_bin_contig_map t) (outdir e) = Inl err"
    by (auto simp: main_def Let_def split: option.splits if_splits sum.splits)
  from s have "split_fasta_by_bin a (load_bin_contig_map t) od = Inl err"
    by (rule split_error_any_dir)
  with e show "main (e\<lparr>outdir := od\<rparr>) = Uncaught err"
    by (simp add: main_def Let_def)
qed

theorem rerun_writes_same_files_witness:
  "main \<lparr>assembly = Some (''>c1'' @ [LF] @ ''AC'' @ [LF]),
         mapping = Some (''bin contig'' @ [LF] @ ''A c1'' @ [LF]),
         outdir = Some [''A.fasta'' \<mapsto> ''stale'', ''notes.txt'' \<mapsto> ''keep'']\<rparr> =
     Finished \<lparr>writers = [''A''],
       files = [''A.fasta'' \<mapsto> ''>c1'' @ [LF] @ ''AC'' @ [LF], ''notes.txt'' \<mapsto> ''keep'']\<rparr> \<and>
   main \<lparr>assembly = Some (''>c1'' @ [LF] @ ''AC'' @ [LF]),
         mapping = Some (''bin contig'' @ [LF] @ ''A c1'' @ [LF]),
         outdir = Some [''A.fasta'' \<mapsto> ''>c1'' @ [LF] @ ''AC'' @ [LF], ''notes.txt'' \<mapsto> ''keep'']\<rparr> =
     Finished \<lparr>writers = [''A''],
       files = [''A.fasta'' \<mapsto> ''>c1'' @ [LF] @ ''AC'' @ [LF], ''notes.txt'' \<mapsto> ''keep'']\<rparr> \<and>
   split_fasta_by_bin (''>c2'' @ [LF] @ ''AC'' @ [LF]) [(''A'', [''c1'', ''c2'']), (''B'', [''c2''])] None =
     split_fasta_by_bin (''>c2'' @ [LF] @ ''AC'' @ [LF]) [(''A'', [''c2'', ''c1'']), (''B'', [''c2''])] None"
proof -
  let ?e = "\<lparr>assembly = Some (''>c1'' @ [LF] @ ''AC'' @ [LF]),
         mapping = Some (''bin contig'' @ [LF] @ ''A c1'' @ [LF]),
         outdir = Some [''A.fasta'' \<mapsto> ''stale'', ''notes.txt'' \<mapsto> ''keep'']\<rparr>"
  let ?o = "\<lparr>writers = [''A''],
       files = [''A.fasta'' \<mapsto> ''>c1'' @ [LF] @ ''AC'' @ [LF], ''notes.txt'' \<mapsto> ''keep'']\<rparr>"
  let ?m = "[(''A'', [''c1'', ''c2'']), (''B'', [''c2''])]"
  let ?n = "[(''A'', [''c2'', ''c1'']), (''B'', [''c2''])]"
  have ld: "load_bin_contig_map (''bin contig'' @ [LF] @ ''A c1'' @ [LF]) = [(''A'', [''c1''])]"
    by (simp add: load_bin_contig_map_def file_lines_def load_line_def strip_def isspace_def
        split_ws.simps)
  have s: "split_fasta_by_bin (''>c1'' @ [LF] @ ''AC'' @ [LF]) [(''A'', [''c1''])]
      (Some [''A.fasta'' \<mapsto> ''stale'', ''notes.txt'' \<mapsto> ''keep'']) = Inr ?o"
    by (simp add: split_fasta_by_bin_def file_lines_def invert_def append_bin_def step_def
        startswith_marker_def header_id_def strip_def isspace_def split_ws.simps flush_def
        write_to_bin_def fwrite_def fopen_w_def fasta_name_def mkdir_def Let_def fun_upd_twist)
  have first: "main ?e = Finished ?o"
    using s by (simp add: main_def Let_def ld [simplified])
  have "main ?e = Finished ?o \<longrightarrow> main (?e\<lparr>outdir := Some (files ?o)\<rparr>) = Finished ?o"
    by (rule rerun_writes_same_files [THEN conjunct2, THEN conjunct2, THEN conjunct2,
          THEN conjunct2, THEN conjunct1])
  with first have second: "main (?e\<lparr>outdir := Some (files ?o)\<rparr>) = Finished ?o"
    by (rule rev_mp)
  have d: "wf_dict ?m \<and> wf_dict ?n \<and> same_dict ?m ?n"
    by (auto simp: wf_dict_def same_dict_def)
  have "wf_dict ?m \<and> wf_dict ?n \<and> same_dict ?m ?n \<longrightarrow>
      split_fasta_by_bin (''>c2'' @ [LF] @ ''AC'' @ [LF]) ?m None =
      split_fasta_by_bin (''>c2'' @ [LF] @ ''AC'' @ [LF]) ?n None"
    by (rule rerun_writes_same_files [THEN conjunct2, THEN conjunct2, THEN conjunct2,
          THEN conjunct1])
  with d have third: "split_fasta_by_bin (''>c2'' @ [LF] @ ''AC'' @ [LF]) ?m None =
      split_fasta_by_bin (''>c2'' @ [LF] @ ''AC'' @ [LF]) ?n None"
    by (rule rev_mp)
  from first second third show ?thesis by simp
qed

text \<open>
  Claim C8. Let the table have at most 250 bins, their names plain file names, and let
  every marker line have a token. The splitter returns. A bin has a file exactly when it owns a record of
  the sequence file. The file of a bin is the concatenation, in the order of the
  sequence file, of the texts of the records the bin owns, each text being the marker
  line and the whole body; read back, it holds exactly those records, in that order. A
  record whose identifier two bins own is among the records of each, so its text, marker
  line and body, is in the file of each.
\<close>

theorem bin_file_holds_owned_records:
  assumes "wf_dict m" and "\<not> list_ex bad_marker (file_lines asm)" and "plain_bins m"
  shows "\<exists>o1. split_fasta_by_bin asm m od = Inr o1 \<and>
     (\<forall>b. (b \<in> set (writers o1) \<longleftrightarrow> owned m b (records (file_lines asm)) \<noteq> []) \<and>
          (b \<in> set (writers o1) \<longrightarrow>
             files o1 (fasta_name b) =
               Some (concat (map render (owned m b (records (file_lines asm))))) \<and>
             files o1 (fasta_name b) = Some (written o1 b)) \<and>
          records (file_lines (written o1 b)) = owned m b (records (file_lines asm))) \<and>
     (\<forall>b b' c. (b, c) \<in> pairs_of m \<and> (b', c) \<in> pairs_of m \<longrightarrow>
          with_id c (owned m b (records (file_lines asm))) =
            with_id c (owned m b' (records (file_lines asm))) \<and>
          with_id c (records (file_lines (written o1 b))) =
            with_id c (records (file_lines (written o1 b'))))"
proof -
  from assms(2) obtain o1 where s: "split_fasta_by_bin asm m od = Inr o1"
    using split_returns by blast
  let ?recs = "records (file_lines asm)"
  have a: "b \<in> set (writers o1) \<longleftrightarrow> owned m b ?recs \<noteq> []" for b
    using assms(1) s by (rule split_writers)
  have b: "files o1 (fasta_name b) = Some (concat (map render (owned m b ?recs))) \<and>
      files o1 (fasta_name b) = Some (written o1 b)"
    if "b \<in> set (writers o1)" for b
    using split_files [OF s that] split_written [OF assms(1) s, of b] by simp
  have c: "records (file_lines (written o1 b)) = owned m b ?recs" for b
    using assms(1) s by (rule split_reread(3))
  have d: "with_id c (owned m b ?recs) = with_id c (owned m b' ?recs) \<and>
      with_id c (records (file_lines (written o1 b))) =
      with_id c (records (file_lines (written o1 b')))"
    if "(b, c) \<in> pairs_of m \<and> (b', c) \<in> pairs_of m" for b b' c
    using that by (simp add: c with_id_owned)
  from s a b c d show ?thesis by blast
qed

theorem bin_file_holds_owned_records_witness:
  "\<exists>o1. split_fasta_by_bin
       (''>c1 d'' @ [LF] @ ''AA'' @ [LF] @ ''>c2'' @ [LF] @ ''CC'' @ [LF] @ ''GG'' @ [LF] @
        ''>c3'' @ [LF] @ ''TT'')
       [(''A'', [''c1'', ''c2'']), (''B'', [''c2''])] None = Inr o1 \<and>
     files o1 (fasta_name ''A'') =
       Some (concat (map render [(''c1'', [''AA'' @ [LF]]), (''c2'', [''CC'' @ [LF], ''GG'' @ [LF]])])) \<and>
     records (file_lines (written o1 ''B'')) = [(''c2'', [''CC'' @ [LF], ''GG'' @ [LF]])] \<and>
     ''C'' \<notin> set (writers o1) \<and>
     with_id ''c2'' (records (file_lines (written o1 ''A''))) =
       with_id ''c2'' (records (file_lines (written o1 ''B'')))"
proof -
  let ?asm = "''>c1 d'' @ [LF] @ ''AA'' @ [LF] @ ''>c2'' @ [LF] @ ''CC'' @ [LF] @ ''GG'' @ [LF] @
        ''>c3'' @ [LF] @ ''TT''"
  let ?m = "[(''A'', [''c1'', ''c2'']), (''B'', [''c2''])]"
  let ?recs = "[(''c1'', [''AA'' @ [LF]]), (''c2'', [''CC'' @ [LF], ''GG'' @ [LF]]), (''c3'', [''TT''])]"
  have wf: "wf_dict ?m" by (simp add: wf_dict_def)
  have fl: "file_lines ?asm = [''>c1 d'' @ [LF], ''AA'' @ [LF], ''>c2'' @ [LF], ''CC'' @ [LF],
      ''GG'' @ [LF], ''>c3'' @ [LF], ''TT'']"
    by (simp add: file_lines_def)
  have good: "\<not> list_ex bad_marker (file_lines ?asm)"
    unfolding fl by (simp add: bad_marker_def startswith_marker_def strip_def isspace_def split_ws.simps)
  have recs: "records (file_lines ?asm) = ?recs"
    unfolding fl
    by (simp add: records_def startswith_marker_def token_of_def strip_def isspace_def
        split_ws.simps)
  have oA: "owned ?m ''A'' ?recs = [(''c1'', [''AA'' @ [LF]]), (''c2'', [''CC'' @ [LF], ''GG'' @ [LF]])]"
    and oB: "owned ?m ''B'' ?recs = [(''c2'', [''CC'' @ [LF], ''GG'' @ [LF]])]"
    and oC: "owned ?m ''C'' ?recs = []"
    by (simp_all add: owned_def pairs_of_def)
  have pA: "(''A'', ''c2'') \<in> pairs_of ?m \<and> (''B'', ''c2'') \<in> pairs_of ?m"
    by (simp add: pairs_of_def)
  have pl: "plain_bins ?m" by (simp add: plain_bins_def plain_name_def)
  from bin_file_holds_owned_records [OF wf good pl, of None]
  obtain o1 where s: "split_fasta_by_bin ?asm ?m None = Inr o1"
    and per: "\<And>b. (b \<in> set (writers o1) \<longleftrightarrow> owned ?m b (records (file_lines ?asm)) \<noteq> []) \<and>
          (b \<in> set (writers o1) \<longrightarrow>
             files o1 (fasta_name b) =
               Some (concat (map render (owned ?m b (records (file_lines ?asm))))) \<and>
             files o1 (fasta_name b) = Some (written o1 b)) \<and>
          records (file_lines (written o1 b)) = owned ?m b (records (file_lines ?asm))"
    and both: "\<And>b b' c. (b, c) \<in> pairs_of ?m \<and> (b', c) \<in> pairs_of ?m \<longrightarrow>
          with_id c (records (file_lines (written o1 b))) =
            with_id c (records (file_lines (written o1 b')))"
    by blast
  have a: "files o1 (fasta_name ''A'') =
      Some (concat (map render [(''c1'', [''AA'' @ [LF]]), (''c2'', [''CC'' @ [LF], ''GG'' @ [LF]])]))"
    using per [of "''A''"] unfolding recs oA by simp
  have b: "records (file_lines (written o1 ''B'')) = [(''c2'', [''CC'' @ [LF], ''GG'' @ [LF]])]"
    using per [of "''B''"] unfolding recs oB by simp
  have c: "''C'' \<notin> set (writers o1)"
    using per [of "''C''"] unfolding recs oC by simp
  have d: "with_id ''c2'' (records (file_lines (written o1 ''A''))) =
       with_id ''c2'' (records (file_lines (written o1 ''B'')))"
    using both [of "''A''" "''c2''" "''B''"] pA by blast
  from s a b c d show ?thesis by blast
qed

text \<open>
  Claim C9. On a sequence file without a marker line (the empty file among them) the
  splitter returns, the output directory exists afterwards with the files it had, and no
  handle was opened. On a file whose marker lines all have a token, and with a table of
  at most 250 bins whose names are plain file names, the splitter returns and a bin that
  owns no record of the file has no handle; the file of its name is what it was before the run
  (absent in a directory that did not have it).
\<close>

theorem no_record_no_file:
  "(\<not> list_ex startswith_marker (file_lines asm) \<longrightarrow>
      split_fasta_by_bin asm m od = Inr \<lparr>writers = [], files = mkdir od\<rparr>) \<and>
   split_fasta_by_bin [] m od = Inr \<lparr>writers = [], files = mkdir od\<rparr> \<and>
   mkdir None = Map.empty \<and>
   (\<not> list_ex startswith_marker (file_lines asm) \<and> load_bin_contig_map tsv \<noteq> [] \<longrightarrow>
      main \<lparr>assembly = Some asm, mapping = Some tsv, outdir = od\<rparr> =
        Finished \<lparr>writers = [], files = mkdir od\<rparr> \<and>
      exit_status (main \<lparr>assembly = Some asm, mapping = Some tsv, outdir = od\<rparr>) = 0) \<and>
   (wf_dict m \<and> plain_bins m \<and> plain_name b \<and> \<not> list_ex bad_marker (file_lines asm) \<and>
    (\<forall>r \<in> set (records (file_lines asm)). (b, fst r) \<notin> pairs_of m) \<longrightarrow>
      (\<exists>o1. split_fasta_by_bin asm m od = Inr o1 \<and>
         b \<notin> set (writers o1) \<and> files o1 (fasta_name b) = mkdir od (fasta_name b)))"
proof (intro conjI impI)
  show nm: "split_fasta_by_bin asm m od = Inr \<lparr>writers = [], files = mkdir od\<rparr>"
    if "\<not> list_ex startswith_marker (file_lines asm)" for asm m
    using that by (simp add: split_fasta_by_bin_fold records_no_marker no_marker_not_bad)
  show "split_fasta_by_bin [] m od = Inr \<lparr>writers = [], files = mkdir od\<rparr>"
    by (rule nm) (simp add: file_lines_def)
  show "mkdir None = Map.empty"
    by (simp add: mkdir_def)
  show "main \<lparr>assembly = Some asm, mapping = Some tsv, outdir = od\<rparr> =
        Finished \<lparr>writers = [], files = mkdir od\<rparr>"
    if "\<not> list_ex startswith_marker (file_lines asm) \<and> load_bin_contig_map tsv \<noteq> []"
    using that nm [of asm "load_bin_contig_map tsv"] by (simp add: main_def Let_def)
  then show "exit_status (main \<lparr>assembly = Some asm, mapping = Some tsv, outdir = od\<rparr>) = 0"
    if "\<not> list_ex startswith_marker (file_lines asm) \<and> load_bin_contig_map tsv \<noteq> []"
    using that by (simp add: exit_status_def)
next
  assume a: "wf_dict m \<and> plain_bins m \<and> plain_name b \<and> \<not> list_ex bad_marker (file_lines asm) \<and>
    (\<forall>r \<in> set (records (file_lines asm)). (b, fst r) \<notin> pairs_of m)"
  let ?recs = "records (file_lines asm)"
  let ?o0 = "\<lparr>writers = [], files = mkdir od\<rparr>"
  let ?o1 = "foldl (emit (invert m)) ?o0 ?recs"
  from a have s: "split_fasta_by_bin asm m od = Inr ?o1"
    by (simp add: split_fasta_by_bin_fold)
  from a have own: "b \<notin> (\<Union>r \<in> set ?recs. set (owners (invert m) (fst r)))"
    by (simp add: owners_invert set_bins_of)
  then have w: "b \<notin> set (writers ?o1)"
    by (simp add: writers_foldl_emit)
  from own have "fasta_name b \<notin> fasta_name ` (\<Union>r \<in> set ?recs. set (owners (invert m) (fst r)))"
    by auto
  then have "files ?o1 (fasta_name b) = files ?o0 (fasta_name b)"
    by (rule frame_foldl_emit)
  then have f: "files ?o1 (fasta_name b) = mkdir od (fasta_name b)"
    by simp
  from s w f show "\<exists>o1. split_fasta_by_bin asm m od = Inr o1 \<and>
      b \<notin> set (writers o1) \<and> files o1 (fasta_name b) = mkdir od (fasta_name b)"
    by blast
qed

theorem no_record_no_file_witness:
  "split_fasta_by_bin (''no marker'' @ [LF] @ ''here'' @ [LF])
     [(''A'', [''c1'']), (''B'', [''c2''])] None = Inr \<lparr>writers = [], files = Map.empty\<rparr> \<and>
   (\<exists>o1. split_fasta_by_bin (''>c1'' @ [LF] @ ''AC'' @ [LF])
            [(''A'', [''c1'']), (''B'', [''c2''])] None = Inr o1 \<and>
         ''B'' \<notin> set (writers o1) \<and> files o1 (fasta_name ''B'') = None) \<and>
   split_fasta_by_bin (''>c1'' @ [LF] @ ''AC'' @ [LF]) [(''A'', [''c1'']), (''B'', [''c2''])] None =
     Inr \<lparr>writers = [''A''], files = [''A.fasta'' \<mapsto> ''>c1'' @ [LF] @ ''AC'' @ [LF]]\<rparr>"
proof -
  let ?m = "[(''A'', [''c1'']), (''B'', [''c2''])]"
  let ?plain = "''no marker'' @ [LF] @ ''here'' @ [LF]"
  let ?asm = "''>c1'' @ [LF] @ ''AC'' @ [LF]"
  have nm: "\<not> list_ex startswith_marker (file_lines ?plain)"
    by (simp add: file_lines_def startswith_marker_def)
  have a: "split_fasta_by_bin ?plain ?m None = Inr \<lparr>writers = [], files = Map.empty\<rparr>"
    using no_record_no_file [of ?plain ?m None, THEN conjunct1, THEN mp, OF nm]
    by (simp add: mkdir_def)
  have ev: "split_fasta_by_bin ?asm ?m None =
      Inr \<lparr>writers = [''A''], files = [''A.fasta'' \<mapsto> ''>c1'' @ [LF] @ ''AC'' @ [LF]]\<rparr>"
    by (simp add: split_fasta_by_bin_def file_lines_def invert_def append_bin_def step_def
        startswith_marker_def header_id_def strip_def isspace_def split_ws.simps flush_def
        write_to_bin_def fwrite_def fopen_w_def fasta_name_def mkdir_def Let_def)
  have fl: "file_lines ?asm = [''>c1'' @ [LF], ''AC'' @ [LF]]"
    by (simp add: file_lines_def)
  have recs: "records (file_lines ?asm) = [(''c1'', [''AC'' @ [LF]])]"
    unfolding fl
    by (simp add: records_def startswith_marker_def token_of_def strip_def
        isspace_def split_ws.simps)
  have good: "\<not> list_ex bad_marker (file_lines ?asm)"
    unfolding fl
    by (simp add: bad_marker_def startswith_marker_def strip_def isspace_def split_ws.simps)
  have hyp: "wf_dict ?m \<and> plain_bins ?m \<and> plain_name ''B'' \<and>
      \<not> list_ex bad_marker (file_lines ?asm) \<and>
      (\<forall>r \<in> set (records (file_lines ?asm)). (''B'', fst r) \<notin> pairs_of ?m)"
    unfolding recs using good
    by (simp add: wf_dict_def pairs_of_def plain_bins_def plain_name_def)
  have "wf_dict ?m \<and> plain_bins ?m \<and> plain_name ''B'' \<and>
      \<not> list_ex bad_marker (file_lines ?asm) \<and>
      (\<forall>r \<in> set (records (file_lines ?asm)). (''B'', fst r) \<notin> pairs_of ?m) \<longrightarrow>
      (\<exists>o1. split_fasta_by_bin ?asm ?m None = Inr o1 \<and>
         ''B'' \<notin> set (writers o1) \<and> files o1 (fasta_name ''B'') = mkdir None (fasta_name ''B''))"
    by (rule no_record_no_file [THEN conjunct2, THEN conjunct2, THEN conjunct2, THEN conjunct2])
  with hyp have "\<exists>o1. split_fasta_by_bin ?asm ?m None = Inr o1 \<and>
         ''B'' \<notin> set (writers o1) \<and> files o1 (fasta_name ''B'') = mkdir None (fasta_name ''B'')"
    by (rule rev_mp)
  then have b: "\<exists>o1. split_fasta_by_bin ?asm ?m None = Inr o1 \<and>
         ''B'' \<notin> set (writers o1) \<and> files o1 (fasta_name ''B'') = None"
    by (simp add: mkdir_def)
  from a b ev show ?thesis by (intro conjI)
qed

text \<open>
  Claim C10. The lines before the first marker line never reach an output file. They are
  appended to the buffer; at the first marker line the flush does nothing, because there
  is no current record yet, and the buffer is reset. So the run on a sequence file is the
  run on the file without the lines before its first marker line.
\<close>

theorem leading_lines_discarded:
  "split_fasta_by_bin asm m od =
     split_fasta_by_bin (concat (dropWhile (\<lambda>x. \<not> startswith_marker x) (file_lines asm))) m od \<and>
   (list_all (\<lambda>x. \<not> startswith_marker x) pre \<and> startswith_marker h \<and> \<not> bad_marker h \<longrightarrow>
      run_lines ctb \<lparr>current_contig = None, seq_buffer = [], out = o1\<rparr> pre =
        Inr \<lparr>current_contig = None, seq_buffer = pre, out = o1\<rparr> \<and>
      flush ctb None pre o1 = o1 \<and>
      run_lines ctb \<lparr>current_contig = None, seq_buffer = [], out = o1\<rparr> (pre @ [h]) =
        Inr \<lparr>current_contig = Some (token_of h), seq_buffer = [], out = o1\<rparr>)"
proof (intro conjI impI)
  show "split_fasta_by_bin asm m od =
     split_fasta_by_bin (concat (dropWhile (\<lambda>x. \<not> startswith_marker x) (file_lines asm))) m od"
    by (simp add: split_fasta_by_bin_fold file_lines_dropWhile records_dropWhile
        bad_marker_dropWhile)
next
  assume h: "list_all (\<lambda>x. \<not> startswith_marker x) pre \<and> startswith_marker h \<and> \<not> bad_marker h"
  then show pre: "run_lines ctb \<lparr>current_contig = None, seq_buffer = [], out = o1\<rparr> pre =
        Inr \<lparr>current_contig = None, seq_buffer = pre, out = o1\<rparr>"
    by (simp add: run_lines_no_marker)
  show "flush ctb None pre o1 = o1" by (rule flush_None)
  show "run_lines ctb \<lparr>current_contig = None, seq_buffer = [], out = o1\<rparr> (pre @ [h]) =
        Inr \<lparr>current_contig = Some (token_of h), seq_buffer = [], out = o1\<rparr>"
    using h by (simp add: run_lines_append pre step_def header_id_good flush_None)
qed

theorem leading_lines_discarded_witness:
  "split_fasta_by_bin (''junk'' @ [LF] @ ''more'' @ [LF] @ ''>c1 x'' @ [LF] @ ''AC'' @ [LF])
     [(''A'', [''c1''])] None =
   split_fasta_by_bin (''>c1 x'' @ [LF] @ ''AC'' @ [LF]) [(''A'', [''c1''])] None \<and>
   split_fasta_by_bin (''>c1 x'' @ [LF] @ ''AC'' @ [LF]) [(''A'', [''c1''])] None =
     Inr \<lparr>writers = [''A''], files = [''A.fasta'' \<mapsto> ''>c1'' @ [LF] @ ''AC'' @ [LF]]\<rparr> \<and>
   run_lines Map.empty \<lparr>current_contig = None, seq_buffer = [],
       out = \<lparr>writers = [], files = Map.empty\<rparr>\<rparr> ([''junk'' @ [LF]] @ [''>c1 x'' @ [LF]]) =
     Inr \<lparr>current_contig = Some ''c1'', seq_buffer = [], out = \<lparr>writers = [], files = Map.empty\<rparr>\<rparr>"
proof -
  let ?asm = "''junk'' @ [LF] @ ''more'' @ [LF] @ ''>c1 x'' @ [LF] @ ''AC'' @ [LF]"
  let ?h = "''>c1 x'' @ [LF]"
  let ?pre = "[''junk'' @ [LF]]"
  note th = leading_lines_discarded [of ?asm "[(''A'', [''c1''])]" None ?pre ?h Map.empty
      "\<lparr>writers = [], files = Map.empty\<rparr>"]
  have fl: "concat (dropWhile (\<lambda>x. \<not> startswith_marker x) (file_lines ?asm)) =
      ''>c1 x'' @ [LF] @ ''AC'' @ [LF]"
    by (simp add: file_lines_def startswith_marker_def)
  have ev: "split_fasta_by_bin (''>c1 x'' @ [LF] @ ''AC'' @ [LF]) [(''A'', [''c1''])] None =
     Inr \<lparr>writers = [''A''], files = [''A.fasta'' \<mapsto> ''>c1'' @ [LF] @ ''AC'' @ [LF]]\<rparr>"
    by (simp add: split_fasta_by_bin_def file_lines_def invert_def append_bin_def step_def
        startswith_marker_def header_id_def strip_def isspace_def split_ws.simps flush_def
        write_to_bin_def fwrite_def fopen_w_def fasta_name_def mkdir_def Let_def)
  have hy: "list_all (\<lambda>x. \<not> startswith_marker x) ?pre \<and>
      startswith_marker ?h \<and> \<not> bad_marker ?h"
    by (simp add: startswith_marker_def bad_marker_def strip_def isspace_def split_ws.simps)
  have tk: "token_of ?h = ''c1''"
    by (simp add: token_of_def strip_def isspace_def split_ws.simps)
  from th have a: "split_fasta_by_bin ?asm [(''A'', [''c1''])] None =
      split_fasta_by_bin (concat (dropWhile (\<lambda>x. \<not> startswith_marker x) (file_lines ?asm)))
        [(''A'', [''c1''])] None"
    by (rule conjunct1)
  from th [THEN conjunct2, THEN mp, OF hy]
  have b: "run_lines Map.empty \<lparr>current_contig = None, seq_buffer = [],
       out = \<lparr>writers = [], files = Map.empty\<rparr>\<rparr> (?pre @ [?h]) =
     Inr \<lparr>current_contig = Some (token_of ?h), seq_buffer = [],
       out = \<lparr>writers = [], files = Map.empty\<rparr>\<rparr>"
    by (elim conjE)
  show ?thesis
    using a b ev unfolding fl tk by (intro conjI)
qed

end
